theory Spec2Isabelle
  imports Main "HOL-Library.AList" "HOL-Library.Sublist"
begin

section \<open>Text, patterns and reference extraction\<close>

text \<open>
  A text is a list of characters; a character stands for a code point below 256. The
  character classes are those of Python's \<open>re\<close> module and of \<open>str.lower\<close> on these
  code points: \<open>\s\<close> is \<open>is_space\<close>, \<open>\d\<close> is \<open>is_digit\<close>.
\<close>

datatype error = ApiError | AttributeError | ValueError

definition is_space :: "char \<Rightarrow> bool" where
  "is_space c = (let n = (of_char c :: nat) in
     (9 \<le> n \<and> n \<le> 13) \<or> (28 \<le> n \<and> n \<le> 32) \<or> n = 133 \<or> n = 160)"

definition is_digit :: "char \<Rightarrow> bool" where
  "is_digit c = (let n = (of_char c :: nat) in 48 \<le> n \<and> n \<le> 57)"

definition is_sep :: "char \<Rightarrow> bool" where
  "is_sep c = (is_space c \<or> c = CHR '':'')"

definition lower_char :: "char \<Rightarrow> char" where
  "lower_char c = (let n = (of_char c :: nat) in
     if (65 \<le> n \<and> n \<le> 90) \<or> (192 \<le> n \<and> n \<le> 222 \<and> n \<noteq> 215)
     then char_of (n + 32) else c)"

definition lower :: "string \<Rightarrow> string" where
  "lower s = map lower_char s"

text \<open>
  \<open>int(match)\<close>: the decimal value of a run of digits. The interpreter refuses a numeral
  of more than 4300 digits with a \<open>ValueError\<close>.
\<close>

definition decimal_value :: "string \<Rightarrow> int" where
  "decimal_value ds = foldl (\<lambda>a c. 10 * a + int (of_char c - (48::nat))) 0 ds"

definition int_py :: "string \<Rightarrow> error + int" where
  "int_py ds = (if length ds > 4300 then Inl ValueError else Inr (decimal_value ds))"

text \<open>
  One closing pattern is an alternation of trigger words followed by \<open>[\s:]+#(\d+)\<close>.
  \<open>match_ref\<close> matches that tail at the start of a text and returns the captured digits
  and the rest of the text; \<open>match_alt\<close> tries the words of the alternation in order;
  \<open>findall\<close> is \<open>re.findall\<close>: leftmost matches, none overlapping another.
\<close>

definition match_ref :: "string \<Rightarrow> (string \<times> string) option" where
  "match_ref s =
     (let seps = takeWhile is_sep s; r = dropWhile is_sep s in
      if seps = [] then None
      else (case r of
              [] \<Rightarrow> None
            | c # r' \<Rightarrow>
                if c \<noteq> CHR ''#'' then None
                else (let ds = takeWhile is_digit r' in
                      if ds = [] then None else Some (ds, dropWhile is_digit r'))))"

fun match_alt :: "string list \<Rightarrow> string \<Rightarrow> (string \<times> string) option" where
  "match_alt [] s = None"
| "match_alt (w # ws) s =
     (if prefix w s
      then (case match_ref (drop (length w) s) of
              Some r \<Rightarrow> Some r
            | None \<Rightarrow> match_alt ws s)
      else match_alt ws s)"

lemma match_ref_shorter: "match_ref s = Some (d, r) \<Longrightarrow> length r < length s"
proof -
  assume a: "match_ref s = Some (d, r)"
  have l1: "length (dropWhile is_digit t) \<le> length t" for t
    by (simp add: length_dropWhile_le)
  have l2: "length (dropWhile is_sep s) \<le> length s"
    by (simp add: length_dropWhile_le)
  from a obtain r' where r': "dropWhile is_sep s = CHR ''#'' # r'" and r: "r = dropWhile is_digit r'"
    by (auto simp: match_ref_def Let_def split: if_splits list.splits)
  have "length r \<le> length r'" using r l1 by simp
  also have "\<dots> < length (dropWhile is_sep s)" using r' by simp
  also have "\<dots> \<le> length s" by (rule l2)
  finally show ?thesis .
qed

lemma match_alt_shorter: "match_alt ws s = Some (d, r) \<Longrightarrow> length r < length s"
proof (induction ws)
  case Nil
  then show ?case by simp
next
  case (Cons w ws)
  then show ?case
    by (auto split: if_splits option.splits dest!: match_ref_shorter)
qed

function findall :: "string list \<Rightarrow> string \<Rightarrow> string list" where
  "findall ws [] = []"
| "findall ws (c # cs) =
     (case match_alt ws (c # cs) of
        Some (d, rest) \<Rightarrow> d # findall ws rest
      | None \<Rightarrow> findall ws cs)"
  by pat_completeness auto
termination
proof (relation "measure (\<lambda>(ws, s). length s)")
  show "wf (measure (\<lambda>(ws, s). length s))" by simp
next
  fix ws c cs x2 x y
  assume "match_alt ws (c # cs) = Some x2" "(x, y) = x2"
  then have "match_alt ws (c # cs) = Some (x, y)" by simp
  from match_alt_shorter[OF this]
  show "((ws, y), ws, c # cs) \<in> measure (\<lambda>(ws, s). length s)" by simp
next
  fix ws c cs
  show "((ws, cs), ws, c # cs) \<in> measure (\<lambda>(ws, s). length s)" by simp
qed

definition closing_patterns :: "string list list" where
  "closing_patterns =
     [[''close'', ''closes'', ''closed'', ''fix'', ''fixes'', ''fixed'',
       ''resolve'', ''resolves'', ''resolved''],
      [''issue'', ''issues'']]"

text \<open>
  The extraction loops of \<open>build_issue_solver_data\<close>: for every pattern, every match on
  the lower-cased text is converted and appended; a failing conversion leaves both loops.
\<close>

fun append_matches :: "int list \<Rightarrow> string list \<Rightarrow> error + int list" where
  "append_matches refs [] = Inr refs"
| "append_matches refs (m # matches) =
     (case int_py m of
        Inl e \<Rightarrow> Inl e
      | Inr issue_number \<Rightarrow> append_matches (refs @ [issue_number]) matches)"

fun apply_patterns :: "string \<Rightarrow> int list \<Rightarrow> string list list \<Rightarrow> error + int list" where
  "apply_patterns body refs [] = Inr refs"
| "apply_patterns body refs (pattern # patterns) =
     (case append_matches refs (findall pattern (lower body)) of
        Inl e \<Rightarrow> Inl e
      | Inr refs' \<Rightarrow> apply_patterns body refs' patterns)"

definition referenced_issues_of :: "string \<Rightarrow> error + int list" where
  "referenced_issues_of body = apply_patterns body [] closing_patterns"

text \<open>The longest run of digits of a text.\<close>

fun longest_digit_run :: "string \<Rightarrow> nat" where
  "longest_digit_run [] = 0"
| "longest_digit_run (c # cs) =
     max (length (takeWhile is_digit (c # cs))) (longest_digit_run cs)"

section \<open>Strings\<close>

text \<open>
  The delimiters of the source and the string operations it uses: \<open>str.join\<close>,
  \<open>str(int)\<close> as in the formatted strings, \<open>str.replace\<close> and \<open>str.lstrip\<close> with an
  argument, which removes every leading character that occurs in the argument. Every
  integer the program formats comes from \<open>int\<close> or from a parsed answer of the service
  and so has at most 4300 digits, for which \<open>str\<close> does not fail.
\<close>

definition COMMENT_DELIMITER :: string where "COMMENT_DELIMITER = '' || ''"
definition FILE_CHANGE_DELIMITER :: string where "FILE_CHANGE_DELIMITER = '' || ''"
definition COMMIT_MSG_DELIMITER :: string where "COMMIT_MSG_DELIMITER = '' || ''"
definition PATCH_NEWLINE_DELIMITER :: string where "PATCH_NEWLINE_DELIMITER = ''|;|''"

definition newline :: char where "newline = CHR 0x0A"

fun join :: "string \<Rightarrow> string list \<Rightarrow> string" where
  "join d [] = []"
| "join d [x] = x"
| "join d (x # y # ys) = x @ d @ join d (y # ys)"

fun str_nat :: "nat \<Rightarrow> string" where
  "str_nat n = (if n < 10 then [char_of (48 + n)]
                else str_nat (n div 10) @ [char_of (48 + n mod 10)])"

declare str_nat.simps [simp del]

definition str_int :: "int \<Rightarrow> string" where
  "str_int i = (if i < 0 then CHR ''-'' # str_nat (nat (- i)) else str_nat (nat i))"

function replace :: "string \<Rightarrow> string \<Rightarrow> string \<Rightarrow> string" where
  "replace old new s =
     (if old = [] then new @ concat (map (\<lambda>c. c # new) s)
      else (case s of
              [] \<Rightarrow> []
            | c # cs \<Rightarrow>
                if prefix old s then new @ replace old new (drop (length old) s)
                else c # replace old new cs))"
  by pat_completeness auto
termination
  by (relation "measure (\<lambda>(old, new, s). length s)") auto

declare replace.simps [simp del]

definition lstrip :: "string \<Rightarrow> string \<Rightarrow> string" where
  "lstrip chars s = dropWhile (\<lambda>c. c \<in> set chars) s"

section \<open>The remote source\<close>

text \<open>
  The code-hosting service is reached through a client library. A repository is modelled
  by what its operations answer: each call either fails (\<open>Inl\<close>, any exception of the
  client) or delivers an object. Timestamps are kept as the text \<open>isoformat()\<close> gives;
  an attribute that the source tests before use is optional.

  The closed pull requests are delivered by a lazy iteration: a list of items and,
  possibly, a failure that ends the iteration after them. The merged flag of an item is
  fetched on first access, which can fail.
\<close>

record issue =
  issue_title :: string
  issue_body :: "string option"
  issue_get_comments :: "error + string list"
  issue_state :: string
  issue_created_at :: "string option"
  issue_closed_at :: "string option"
  issue_user :: "string option"
  issue_labels :: "string list"

record pr_file =
  f_filename :: string
  f_additions :: int
  f_deletions :: int
  f_changes :: int
  f_status :: string
  f_patch :: "string option"

record commit =
  commit_message :: string
  commit_author :: "string option option"

record pull =
  pull_get_files :: "error + pr_file list"
  pull_get_commits :: "error + commit list"

record pull_request =
  p_number :: int
  p_title :: string
  p_user :: "string option"
  p_merged :: "error + bool"
  p_merged_at :: "string option"
  p_merged_by :: "string option"
  p_body :: "string option"

record repo =
  get_pulls :: "pull_request list \<times> error option"
  get_issue :: "int \<Rightarrow> error + issue"
  get_pull :: "int \<Rightarrow> error + pull"

section \<open>Per-item fetch operations\<close>

text \<open>
  Each of the four functions is one \<open>try\<close> block around its whole body and an
  \<open>except Exception\<close> that returns a neutral value. The body is the \<open>_try\<close> definition;
  the function replaces its failure by the neutral value.
\<close>

record issue_details =
  det_body :: string
  det_comments :: string
  det_state :: string
  det_created_at :: string
  det_closed_at :: string
  det_opened_by :: string
  det_labels :: string

record file_change =
  fc_filename :: string
  fc_additions :: int
  fc_deletions :: int
  fc_changes :: int
  fc_status :: string
  fc_patch :: string

definition or_empty :: "string option \<Rightarrow> string" where
  "or_empty v = (case v of None \<Rightarrow> [] | Some s \<Rightarrow> s)"

definition empty_issue_details :: issue_details where
  "empty_issue_details =
     \<lparr>det_body = [], det_comments = [], det_state = [], det_created_at = [],
      det_closed_at = [], det_opened_by = [], det_labels = []\<rparr>"

definition get_issue_details_try :: "repo \<Rightarrow> int \<Rightarrow> error + issue_details" where
  "get_issue_details_try repo issue_number =
     (case get_issue repo issue_number of
        Inl e \<Rightarrow> Inl e
      | Inr issue \<Rightarrow>
          (case issue_get_comments issue of
             Inl e \<Rightarrow> Inl e
           | Inr comments \<Rightarrow>
               Inr \<lparr>det_body = or_empty (issue_body issue),
                    det_comments = join COMMENT_DELIMITER comments,
                    det_state = issue_state issue,
                    det_created_at = or_empty (issue_created_at issue),
                    det_closed_at = or_empty (issue_closed_at issue),
                    det_opened_by = or_empty (issue_user issue),
                    det_labels = join '', '' (issue_labels issue)\<rparr>))"

definition get_issue_details :: "repo \<Rightarrow> int \<Rightarrow> issue_details" where
  "get_issue_details repo issue_number =
     (case get_issue_details_try repo issue_number of
        Inr details \<Rightarrow> details
      | Inl e \<Rightarrow> empty_issue_details)"

definition file_change_of :: "pr_file \<Rightarrow> file_change" where
  "file_change_of f =
     \<lparr>fc_filename = f_filename f,
      fc_additions = f_additions f,
      fc_deletions = f_deletions f,
      fc_changes = f_changes f,
      fc_status = f_status f,
      fc_patch = (case f_patch f of
                    None \<Rightarrow> []
                  | Some p \<Rightarrow> if p = [] then [] else replace [newline] PATCH_NEWLINE_DELIMITER p)\<rparr>"

definition fetch_pr_file_changes_try :: "repo \<Rightarrow> int \<Rightarrow> error + file_change list" where
  "fetch_pr_file_changes_try repo pr_number =
     (case get_pull repo pr_number of
        Inl e \<Rightarrow> Inl e
      | Inr pr \<Rightarrow>
          (case pull_get_files pr of
             Inl e \<Rightarrow> Inl e
           | Inr files \<Rightarrow> Inr (foldl (\<lambda>file_changes f. file_changes @ [file_change_of f]) [] files)))"

definition fetch_pr_file_changes :: "repo \<Rightarrow> int \<Rightarrow> file_change list" where
  "fetch_pr_file_changes repo pr_number =
     (case fetch_pr_file_changes_try repo pr_number of
        Inr file_changes \<Rightarrow> file_changes
      | Inl e \<Rightarrow> [])"

definition fetch_commit_messages_try :: "repo \<Rightarrow> int \<Rightarrow> error + string" where
  "fetch_commit_messages_try repo pr_number =
     (case get_pull repo pr_number of
        Inl e \<Rightarrow> Inl e
      | Inr pr \<Rightarrow>
          (case pull_get_commits pr of
             Inl e \<Rightarrow> Inl e
           | Inr commits \<Rightarrow> Inr (join COMMIT_MSG_DELIMITER (map commit_message commits))))"

definition fetch_commit_messages :: "repo \<Rightarrow> int \<Rightarrow> string" where
  "fetch_commit_messages repo pr_number =
     (case fetch_commit_messages_try repo pr_number of
        Inr messages \<Rightarrow> messages
      | Inl e \<Rightarrow> [])"

text \<open>
  A set of names is kept as a list without repetition. The order in which the source's
  \<open>list(set)\<close> delivers the names is not fixed by the language; the model delivers them in
  the order of first insertion.
\<close>

definition set_add :: "'a \<Rightarrow> 'a list \<Rightarrow> 'a list" where
  "set_add x xs = (if x \<in> set xs then xs else xs @ [x])"

definition add_commit_author :: "string list \<Rightarrow> commit \<Rightarrow> string list" where
  "add_commit_author contributors c =
     (case commit_author c of
        None \<Rightarrow> contributors
      | Some None \<Rightarrow> contributors
      | Some (Some login) \<Rightarrow> if login = [] then contributors else set_add login contributors)"

definition get_pr_contributors_try :: "repo \<Rightarrow> int \<Rightarrow> error + string list" where
  "get_pr_contributors_try repo pr_number =
     (case get_pull repo pr_number of
        Inl e \<Rightarrow> Inl e
      | Inr pr \<Rightarrow>
          (case pull_get_commits pr of
             Inl e \<Rightarrow> Inl e
           | Inr commits \<Rightarrow> Inr (foldl add_commit_author [] commits)))"

definition get_pr_contributors :: "repo \<Rightarrow> int \<Rightarrow> string list" where
  "get_pr_contributors repo pr_number =
     (case get_pr_contributors_try repo pr_number of
        Inr contributors \<Rightarrow> contributors
      | Inl e \<Rightarrow> [])"

definition format_file_changes :: "int \<Rightarrow> file_change list \<Rightarrow> string" where
  "format_file_changes pr_number changes =
     join FILE_CHANGE_DELIMITER
       (foldl (\<lambda>formatted change.
                 formatted @ [''PR#'' @ str_int pr_number @ '' - '' @ fc_filename change
                              @ '': '' @ fc_patch change])
          [] changes)"

section \<open>The change-set scanner and the graph builder\<close>

text \<open>
  \<open>build_issue_solver_data\<close> has three steps: the scan of the closed pull requests, the
  inversion of the scanned mapping into an issue map, and the enrichment of every issue.
  Dictionaries are association lists in insertion order; \<open>AList.update\<close> is the assignment
  \<open>d[k] = v\<close> and \<open>AList.map_entry\<close> the change of the value under a key that is
  present. A key that is absent from a node (the source's \<open>dict.get\<close> with a default) is an
  optional field.
\<close>

record pr_info =
  info_number :: int
  info_title :: string
  info_author :: string
  info_merged_at :: "string option"
  info_merged_by :: "string option"
  info_referenced_issues :: "int list"

record linked_pr =
  lp_number :: int
  lp_title :: string
  lp_merged_at :: "string option"
  lp_merged_by :: "string option"
  lp_file_changes :: "string option"
  lp_commit_messages :: "string option"

record issue_node =
  node_issue_number :: int
  node_title :: "string option"
  node_linked_prs :: "linked_pr list"
  node_solvers :: "string list"
  node_file_changes :: "string list"
  node_commit_messages :: string
  node_labels :: "string list option"
  node_state :: "string option"
  node_created_at :: "string option"
  node_closed_at :: "string option"
  node_opened_by :: "string option"

type_synonym pr_issue_map = "(int \<times> pr_info) list"
type_synonym issue_map = "(int \<times> issue_node) list"

subsection \<open>Step 1: the scan\<close>

text \<open>
  The statements of the loop body after the counter is incremented: the record of the
  pull request is built (\<open>pr.user.login\<close> fails for a pull request without user), then
  the references are extracted from a non-empty description.
\<close>

definition make_pr_info :: "pull_request \<Rightarrow> error + pr_info" where
  "make_pr_info pr =
     (case p_user pr of
        None \<Rightarrow> Inl AttributeError
      | Some login \<Rightarrow>
          (case (case p_body pr of
                   None \<Rightarrow> Inr []
                 | Some body \<Rightarrow> if body = [] then Inr [] else referenced_issues_of body) of
             Inl e \<Rightarrow> Inl e
           | Inr refs \<Rightarrow>
               Inr \<lparr>info_number = p_number pr,
                    info_title = p_title pr,
                    info_author = login,
                    info_merged_at = p_merged_at pr,
                    info_merged_by = p_merged_by pr,
                    info_referenced_issues = refs\<rparr>))"

text \<open>
  The loop over the iteration. Its state is the mapping and the counter; the result also
  holds the items that were not visited. A failure inside the body is handled by going on
  with the next item; the failure that ends the iteration itself is outside every
  \<open>try\<close> and leaves the function.
\<close>

fun scan_prs :: "int \<Rightarrow> pull_request list \<Rightarrow> error option \<Rightarrow> pr_issue_map \<Rightarrow> int
                  \<Rightarrow> error + (pr_issue_map \<times> int \<times> pull_request list)" where
  "scan_prs max_prs [] failure pr_issue_mapping processed_count =
     (case failure of
        None \<Rightarrow> Inr (pr_issue_mapping, processed_count, [])
      | Some e \<Rightarrow> Inl e)"
| "scan_prs max_prs (pr # prs) failure pr_issue_mapping processed_count =
     (case p_merged pr of
        Inl e \<Rightarrow> scan_prs max_prs prs failure pr_issue_mapping processed_count
      | Inr merged \<Rightarrow>
          if \<not> merged then scan_prs max_prs prs failure pr_issue_mapping processed_count
          else (let processed_count = processed_count + 1 in
                case make_pr_info pr of
                  Inl e \<Rightarrow> scan_prs max_prs prs failure pr_issue_mapping processed_count
                | Inr info \<Rightarrow>
                    (let pr_issue_mapping =
                           (if info_referenced_issues info \<noteq> []
                            then AList.update (p_number pr) info pr_issue_mapping
                            else pr_issue_mapping)
                     in if processed_count \<ge> max_prs
                        then Inr (pr_issue_mapping, processed_count, prs)
                        else scan_prs max_prs prs failure pr_issue_mapping processed_count)))"

definition scan :: "repo \<Rightarrow> int \<Rightarrow> error + (pr_issue_map \<times> int \<times> pull_request list)" where
  "scan repo max_prs = scan_prs max_prs (fst (get_pulls repo)) (snd (get_pulls repo)) [] 0"

subsection \<open>Step 2: the inversion\<close>

definition new_issue_node :: "int \<Rightarrow> issue_node" where
  "new_issue_node issue_number =
     \<lparr>node_issue_number = issue_number, node_title = None, node_linked_prs = [],
      node_solvers = [], node_file_changes = [], node_commit_messages = [],
      node_labels = None, node_state = None, node_created_at = None,
      node_closed_at = None, node_opened_by = None\<rparr>"

definition pr_stub :: "pr_info \<Rightarrow> linked_pr" where
  "pr_stub pr_data =
     \<lparr>lp_number = info_number pr_data, lp_title = info_title pr_data,
      lp_merged_at = info_merged_at pr_data, lp_merged_by = info_merged_by pr_data,
      lp_file_changes = None, lp_commit_messages = None\<rparr>"

definition link_issue :: "pr_info \<Rightarrow> issue_map \<Rightarrow> int \<Rightarrow> issue_map" where
  "link_issue pr_data issue_solver_data issue_number =
     (let d = (if map_of issue_solver_data issue_number = None
               then AList.update issue_number (new_issue_node issue_number) issue_solver_data
               else issue_solver_data)
      in AList.map_entry issue_number
           (\<lambda>node. node\<lparr>node_linked_prs := node_linked_prs node @ [pr_stub pr_data]\<rparr>) d)"

definition invert :: "pr_issue_map \<Rightarrow> issue_map" where
  "invert pr_issue_mapping =
     foldl (\<lambda>issue_solver_data (pr_number, pr_data).
              foldl (link_issue pr_data) issue_solver_data (info_referenced_issues pr_data))
       [] pr_issue_mapping"

subsection \<open>Step 3: the enrichment\<close>

definition update_from_issue :: "repo \<Rightarrow> int \<Rightarrow> issue_node \<Rightarrow> issue_node" where
  "update_from_issue repo issue_number node =
     (case get_issue repo issue_number of
        Inl e \<Rightarrow> node
      | Inr issue \<Rightarrow>
          node\<lparr>node_title := Some (issue_title issue),
               node_labels := Some (issue_labels issue),
               node_state := Some (issue_state issue),
               node_created_at := Some (or_empty (issue_created_at issue)),
               node_closed_at := Some (or_empty (issue_closed_at issue)),
               node_opened_by := Some (or_empty (issue_user issue))\<rparr>)"

text \<open>
  One turn of the loop over the linked pull requests of an issue: the state is the node
  and the linked pull requests already rewritten.
\<close>

definition enrich_pr :: "repo \<Rightarrow> issue_node \<times> linked_pr list \<Rightarrow> linked_pr
                          \<Rightarrow> issue_node \<times> linked_pr list" where
  "enrich_pr repo st pr_info =
     (let node = fst st; done = snd st;
          pr_number = lp_number pr_info;
          file_changes = fetch_pr_file_changes repo pr_number;
          formatted_changes = format_file_changes pr_number file_changes;
          commit_msgs = fetch_commit_messages repo pr_number;
          solvers = get_pr_contributors repo pr_number
      in (node\<lparr>node_solvers := foldl (\<lambda>s solver. set_add solver s) (node_solvers node) solvers,
               node_file_changes := node_file_changes node @ [formatted_changes],
               node_commit_messages :=
                 node_commit_messages node
                 @ (if commit_msgs \<noteq> [] then COMMIT_MSG_DELIMITER @ commit_msgs else [])\<rparr>,
          done @ [pr_info\<lparr>lp_file_changes := Some formatted_changes,
                           lp_commit_messages := Some commit_msgs\<rparr>]))"

definition enrich_issue :: "repo \<Rightarrow> int \<Rightarrow> issue_node \<Rightarrow> issue_node" where
  "enrich_issue repo issue_number node =
     (let node1 = update_from_issue repo issue_number node;
          st = foldl (enrich_pr repo) (node1, []) (node_linked_prs node1)
      in (fst st)\<lparr>node_linked_prs := snd st\<rparr>)"

definition enrich :: "repo \<Rightarrow> issue_map \<Rightarrow> issue_map" where
  "enrich repo issue_solver_data =
     foldl (\<lambda>d issue_number. AList.map_entry issue_number (enrich_issue repo issue_number) d)
       issue_solver_data (map fst issue_solver_data)"

definition build_issue_solver_data :: "repo \<Rightarrow> int \<Rightarrow> error + issue_map" where
  "build_issue_solver_data repo max_prs =
     (case scan repo max_prs of
        Inl e \<Rightarrow> Inl e
      | Inr scanned \<Rightarrow> Inr (enrich repo (invert (fst scanned))))"

text \<open>The linked pull requests recorded for an issue; none for an issue without a node.\<close>

definition linked_prs_of :: "issue_map \<Rightarrow> int \<Rightarrow> linked_pr list" where
  "linked_prs_of issue_solver_data issue_number =
     (case map_of issue_solver_data issue_number of
        None \<Rightarrow> []
      | Some node \<Rightarrow> node_linked_prs node)"

text \<open>
  The invariant of the inversion: every node is stored under its own issue number and has
  no contributor yet.
\<close>

definition fresh_nodes :: "issue_map \<Rightarrow> bool" where
  "fresh_nodes d = (\<forall>k node. map_of d k = Some node \<longrightarrow>
                      node_issue_number node = k \<and> node_solvers node = [])"

section \<open>The row flattener\<close>

text \<open>
  \<open>generate_csv_rows\<close> is a loop over the issues with an inner loop over the
  contributors; \<open>issue_rows\<close> is one turn of the outer loop, appending to the rows so
  far. The keys of the issue map are not read, so the map may come from the builder or
  from a cache artifact.
\<close>

record csv_row =
  row_repo_name :: string
  row_contributor_id :: string
  row_issue_id :: int
  row_issue_title :: "string option"
  row_issue_body :: string
  row_issue_comments :: string
  row_issue_state :: string
  row_issue_created_at :: string
  row_issue_closed_at :: string
  row_opened_by :: string
  row_issue_labels :: string
  row_linked_pr_count :: nat
  row_modified_source_files :: string
  row_commit_messages :: string

definition issue_rows :: "repo \<Rightarrow> string \<Rightarrow> csv_row list \<Rightarrow> issue_node \<Rightarrow> csv_row list" where
  "issue_rows repo repo_name rows issue_data =
     (let linked_pr_count = length (node_linked_prs issue_data);
          modified_files = join FILE_CHANGE_DELIMITER (node_file_changes issue_data);
          commit_messages = lstrip COMMIT_MSG_DELIMITER (node_commit_messages issue_data);
          solvers = (if node_solvers issue_data = [] then [''unknown''] else node_solvers issue_data);
          issue_details = get_issue_details repo (node_issue_number issue_data)
      in foldl (\<lambda>rows solver.
                  rows @ [\<lparr>row_repo_name = repo_name,
                            row_contributor_id = solver,
                            row_issue_id = node_issue_number issue_data,
                            row_issue_title = node_title issue_data,
                            row_issue_body = det_body issue_details,
                            row_issue_comments = det_comments issue_details,
                            row_issue_state = or_empty (node_state issue_data),
                            row_issue_created_at = or_empty (node_created_at issue_data),
                            row_issue_closed_at = or_empty (node_closed_at issue_data),
                            row_opened_by = or_empty (node_opened_by issue_data),
                            row_issue_labels =
                              (case node_labels issue_data of
                                 None \<Rightarrow> []
                               | Some labels \<Rightarrow> if labels = [] then [] else join '', '' labels),
                            row_linked_pr_count = linked_pr_count,
                            row_modified_source_files = modified_files,
                            row_commit_messages = commit_messages\<rparr>])
           rows solvers)"

definition generate_csv_rows :: "('k \<times> issue_node) list \<Rightarrow> repo \<Rightarrow> string \<Rightarrow> csv_row list" where
  "generate_csv_rows issue_solver_data repo repo_name =
     foldl (\<lambda>rows (issue_key, issue_data). issue_rows repo repo_name rows issue_data)
       [] issue_solver_data"

section \<open>The cache artifact\<close>

text \<open>
  \<open>main\<close> writes the issue map with \<open>json.dump\<close> and reads it with \<open>json.load\<close>. The
  values that pass through are \<open>None\<close>, integers, strings, lists and dictionaries; the
  keys of a dictionary are integers or strings. The artifact is modelled as the JSON
  document, not as its text. \<open>json.dump\<close> writes every key as a string; both directions
  convert integers with the interpreter's limit of 4300 digits.
\<close>

datatype key = IntKey int | StrKey string

datatype py = PNone | PInt int | PStr string | PList "py list" | PDict "(key \<times> py) list"

datatype json = JNull | JInt int | JStr string | JArr "json list" | JObj "(string \<times> json) list"

definition int_fits :: "int \<Rightarrow> bool" where
  "int_fits n = (length (str_nat (nat \<bar>n\<bar>)) \<le> 4300)"

definition key_str :: "key \<Rightarrow> string" where
  "key_str k = (case k of IntKey n \<Rightarrow> str_int n | StrKey s \<Rightarrow> s)"

definition key_fits :: "key \<Rightarrow> bool" where
  "key_fits k = (case k of IntKey n \<Rightarrow> int_fits n | StrKey s \<Rightarrow> True)"

primrec dumpable :: "py \<Rightarrow> bool" where
  "dumpable PNone = True"
| "dumpable (PInt n) = int_fits n"
| "dumpable (PStr s) = True"
| "dumpable (PList xs) = list_all id (map dumpable xs)"
| "dumpable (PDict kvs) = list_all (\<lambda>(a, b). a \<and> b) (map (map_prod key_fits dumpable) kvs)"

primrec to_json :: "py \<Rightarrow> json" where
  "to_json PNone = JNull"
| "to_json (PInt n) = JInt n"
| "to_json (PStr s) = JStr s"
| "to_json (PList xs) = JArr (map to_json xs)"
| "to_json (PDict kvs) = JObj (map (map_prod key_str to_json) kvs)"

definition json_dump :: "py \<Rightarrow> error + json" where
  "json_dump v = (if dumpable v then Inr (to_json v) else Inl ValueError)"

text \<open>A dictionary built from pairs in order: a repeated key keeps its place and takes the last value.\<close>

definition dict_of_pairs :: "(key \<times> py) list \<Rightarrow> (key \<times> py) list" where
  "dict_of_pairs ps = foldl (\<lambda>d (k, v). AList.update k v d) [] ps"

primrec loadable :: "json \<Rightarrow> bool" where
  "loadable JNull = True"
| "loadable (JInt n) = int_fits n"
| "loadable (JStr s) = True"
| "loadable (JArr xs) = list_all id (map loadable xs)"
| "loadable (JObj kvs) = list_all snd (map (map_prod id loadable) kvs)"

primrec from_json :: "json \<Rightarrow> py" where
  "from_json JNull = PNone"
| "from_json (JInt n) = PInt n"
| "from_json (JStr s) = PStr s"
| "from_json (JArr xs) = PList (map from_json xs)"
| "from_json (JObj kvs) = PDict (dict_of_pairs (map (map_prod StrKey from_json) kvs))"

definition json_load :: "json \<Rightarrow> error + py" where
  "json_load j = (if loadable j then Inr (from_json j) else Inl ValueError)"

text \<open>The issue map as the value that \<open>build_issue_solver_data\<close> returns.\<close>

definition py_opt :: "string option \<Rightarrow> py" where
  "py_opt v = (case v of None \<Rightarrow> PNone | Some s \<Rightarrow> PStr s)"

definition py_field :: "string \<Rightarrow> ('a \<Rightarrow> py) \<Rightarrow> 'a option \<Rightarrow> (key \<times> py) list" where
  "py_field name f v = (case v of None \<Rightarrow> [] | Some x \<Rightarrow> [(StrKey name, f x)])"

definition py_of_linked_pr :: "linked_pr \<Rightarrow> py" where
  "py_of_linked_pr pr_info =
     PDict ([(StrKey ''number'', PInt (lp_number pr_info)),
             (StrKey ''title'', PStr (lp_title pr_info)),
             (StrKey ''merged_at'', py_opt (lp_merged_at pr_info)),
             (StrKey ''merged_by'', py_opt (lp_merged_by pr_info))]
            @ py_field ''file_changes'' PStr (lp_file_changes pr_info)
            @ py_field ''commit_messages'' PStr (lp_commit_messages pr_info))"

definition py_of_node :: "issue_node \<Rightarrow> py" where
  "py_of_node node =
     PDict ([(StrKey ''issue_number'', PInt (node_issue_number node)),
             (StrKey ''title'', py_opt (node_title node)),
             (StrKey ''linked_prs'', PList (map py_of_linked_pr (node_linked_prs node))),
             (StrKey ''solvers'', PList (map PStr (node_solvers node))),
             (StrKey ''file_changes'', PList (map PStr (node_file_changes node))),
             (StrKey ''commit_messages'', PStr (node_commit_messages node))]
            @ py_field ''labels'' (\<lambda>labels. PList (map PStr labels)) (node_labels node)
            @ py_field ''state'' PStr (node_state node)
            @ py_field ''created_at'' PStr (node_created_at node)
            @ py_field ''closed_at'' PStr (node_closed_at node)
            @ py_field ''opened_by'' PStr (node_opened_by node))"

definition py_of_issue_map :: "issue_map \<Rightarrow> py" where
  "py_of_issue_map issue_solver_data =
     PDict (map (\<lambda>(issue_number, node). (IntKey issue_number, py_of_node node)) issue_solver_data)"

text \<open>Writing the artifact and reading it back.\<close>

definition write_then_read :: "issue_map \<Rightarrow> error + py" where
  "write_then_read issue_solver_data =
     (case json_dump (py_of_issue_map issue_solver_data) of
        Inl e \<Rightarrow> Inl e
      | Inr artifact \<Rightarrow> json_load artifact)"

subsection \<open>Example repositories\<close>

definition example_pr :: pull_request where
  "example_pr =
     \<lparr>p_number = 10, p_title = ''Fix crash on start'', p_user = Some ''alice'',
      p_merged = Inr True, p_merged_at = Some ''2024-01-02T10:00:00'',
      p_merged_by = Some ''bob'', p_body = Some ''Fixes #1''\<rparr>"

definition example_issue :: issue where
  "example_issue =
     \<lparr>issue_title = ''Crash on start'', issue_body = Some ''It crashes.'',
      issue_get_comments = Inr [''Confirmed.''], issue_state = ''open'',
      issue_created_at = Some ''2024-01-01T09:00:00'', issue_closed_at = None,
      issue_user = Some ''carol'', issue_labels = [''bug'']\<rparr>"

definition example_pull :: pull where
  "example_pull =
     \<lparr>pull_get_files =
        Inr [\<lparr>f_filename = ''main.py'', f_additions = 1, f_deletions = 1, f_changes = 2,
              f_status = ''modified'',
              f_patch = Some (''-a = b | c'' @ [newline] @ ''+a = b || c'')\<rparr>],
      pull_get_commits =
        Inr [\<lparr>commit_message = ''|| operator used'', commit_author = Some (Some ''alice'')\<rparr>]\<rparr>"

definition example_repo :: repo where
  "example_repo =
     \<lparr>get_pulls = ([example_pr], None),
      get_issue = (\<lambda>n. if n = 1 then Inr example_issue else Inl ApiError),
      get_pull = (\<lambda>n. if n = 10 then Inr example_pull else Inl ApiError)\<rparr>"

definition example_repo_later :: repo where
  "example_repo_later =
     example_repo\<lparr>get_issue :=
       (\<lambda>n. if n = 1
            then Inr (example_issue\<lparr>issue_state := ''closed'',
                                     issue_closed_at := Some ''2024-01-02T10:00:00''\<rparr>)
            else Inl ApiError)\<rparr>"

definition example_node_unknown :: issue_node where
  "example_node_unknown =
     (new_issue_node 7)\<lparr>node_linked_prs := [\<lparr>lp_number = 11, lp_title = ''Tidy up'',
                                               lp_merged_at = None, lp_merged_by = None,
                                               lp_file_changes = Some [],
                                               lp_commit_messages = Some []\<rparr>],
                          node_file_changes := [[]]\<rparr>"

definition example_node_two :: issue_node where
  "example_node_two =
     (new_issue_node 1)\<lparr>node_title := Some ''Crash on start'',
                          node_solvers := [''alice'', ''bob''],
                          node_state := Some ''open''\<rparr>"

definition example_issue_map :: issue_map where
  "example_issue_map = [(7, example_node_unknown), (1, example_node_two)]"

definition example_repo_newline :: repo where
  "example_repo_newline =
     example_repo\<lparr>get_pull :=
       (\<lambda>n. if n = 12
            then Inr \<lparr>pull_get_files =
                        Inr [\<lparr>f_filename = ''a'' @ [newline] @ ''b.txt'', f_additions = 2,
                              f_deletions = 0, f_changes = 2, f_status = ''added'',
                              f_patch = Some (''+x'' @ [newline] @ ''+y'')\<rparr>],
                      pull_get_commits = Inr []\<rparr>
            else Inl ApiError)\<rparr>"



definition example_pr_long :: pull_request where
  "example_pr_long =
     example_pr\<lparr>p_number := 9, p_body := Some (''fixes #'' @ replicate 4301 CHR ''7'')\<rparr>"

definition example_pr_next :: pull_request where
  "example_pr_next = example_pr\<lparr>p_number := 11, p_body := Some ''Closes #2''\<rparr>"

definition example_pr_twice :: pull_request where
  "example_pr_twice = example_pr\<lparr>p_body := Some ''Fixes #1, closes #1 and resolves #3''\<rparr>"

definition example_repo_twice :: repo where
  "example_repo_twice = example_repo\<lparr>get_pulls := ([example_pr_twice], None)\<rparr>"

definition example_built :: issue_map where
  "example_built =
     [(1, \<lparr>node_issue_number = 1, node_title = Some ''Crash on start'',
           node_linked_prs =
             [\<lparr>lp_number = 10, lp_title = ''Fix crash on start'',
               lp_merged_at = Some ''2024-01-02T10:00:00'', lp_merged_by = Some ''bob'',
               lp_file_changes = Some ''PR#10 - main.py: -a = b | c|;|+a = b || c'',
               lp_commit_messages = Some ''|| operator used''\<rparr>],
           node_solvers = [''alice''],
           node_file_changes = [''PR#10 - main.py: -a = b | c|;|+a = b || c''],
           node_commit_messages = '' || || operator used'',
           node_labels = Some [''bug''], node_state = Some ''open'',
           node_created_at = Some ''2024-01-01T09:00:00'', node_closed_at = Some [],
           node_opened_by = Some ''carol''\<rparr>)]"

definition example_info :: pr_info where
  "example_info =
     \<lparr>info_number = 10, info_title = ''Fix crash on start'', info_author = ''alice'',
      info_merged_at = Some ''2024-01-02T10:00:00'', info_merged_by = Some ''bob'',
      info_referenced_issues = [1]\<rparr>"

section \<open>Properties of the reference extraction\<close>

lemma of_char_lower_char:
  "(of_char (lower_char c) :: nat) =
     (let n = (of_char c :: nat) in
      if (65 \<le> n \<and> n \<le> 90) \<or> (192 \<le> n \<and> n \<le> 222 \<and> n \<noteq> 215) then n + 32 else n)"
  by (simp add: lower_char_def Let_def)

lemma lower_char_digit [simp]: "is_digit (lower_char c) = is_digit c"
  by (simp add: is_digit_def of_char_lower_char Let_def)

lemma lower_char_fix_digit: "is_digit c \<Longrightarrow> lower_char c = c"
  by (simp add: is_digit_def lower_char_def Let_def)

lemma lower_char_fix_sep: "is_sep c \<Longrightarrow> lower_char c = c"
  by (auto simp: is_sep_def is_space_def lower_char_def Let_def)

lemma lower_append [simp]: "lower (xs @ ys) = lower xs @ lower ys"
  by (simp add: lower_def)

lemma lower_fix_digits: "\<forall>c\<in>set ds. is_digit c \<Longrightarrow> lower ds = ds"
  by (induction ds) (simp_all add: lower_def lower_char_fix_digit)

lemma lower_fix_seps: "\<forall>c\<in>set seps. is_sep c \<Longrightarrow> lower seps = seps"
  by (induction seps) (simp_all add: lower_def lower_char_fix_sep)

lemma not_sep_hash [simp]: "\<not> is_sep CHR ''#''"
  by (simp add: is_sep_def is_space_def)

lemma not_digit_hash [simp]: "\<not> is_digit CHR ''#''"
  by (simp add: is_digit_def)

lemma match_ref_hit:
  assumes "seps \<noteq> []" and "\<forall>c\<in>set seps. is_sep c"
    and "ds \<noteq> []" and "\<forall>c\<in>set ds. is_digit c"
    and "case post of [] \<Rightarrow> True | c # _ \<Rightarrow> \<not> is_digit c"
  shows "match_ref (seps @ CHR ''#'' # ds @ post) = Some (ds, post)"
proof -
  have t1: "takeWhile is_sep (seps @ CHR ''#'' # ds @ post) = seps"
    using assms(2) by (simp add: takeWhile_tail)
  have d1: "dropWhile is_sep (seps @ CHR ''#'' # ds @ post) = CHR ''#'' # ds @ post"
    using assms(2) by (simp add: dropWhile_append2)
  have t2: "takeWhile is_digit (ds @ post) = ds"
    using assms(4,5) by (cases post) (simp_all add: takeWhile_tail)
  have d2: "dropWhile is_digit (ds @ post) = post"
    using assms(4,5) by (cases post) (simp_all add: dropWhile_append2)
  show ?thesis
    using assms(1,3) by (simp add: match_ref_def t1 d1 t2 d2)
qed

lemma match_ref_shape:
  assumes "match_ref s = Some (d, r)"
  shows "\<exists>mid. s = mid @ r \<and> (\<forall>c\<in>set mid. is_sep c \<or> c = CHR ''#'' \<or> is_digit c)"
proof -
  from assms obtain r' where r': "dropWhile is_sep s = CHR ''#'' # r'"
    and d: "d = takeWhile is_digit r'" and r: "r = dropWhile is_digit r'"
    by (auto simp: match_ref_def Let_def split: if_splits list.splits)
  have "s = takeWhile is_sep s @ dropWhile is_sep s" by simp
  also have "\<dots> = (takeWhile is_sep s @ CHR ''#'' # d) @ r"
    using r' d r by simp
  finally have eq: "s = (takeWhile is_sep s @ CHR ''#'' # d) @ r" .
  have "\<forall>c\<in>set (takeWhile is_sep s @ CHR ''#'' # d). is_sep c \<or> c = CHR ''#'' \<or> is_digit c"
    using d by (auto dest: set_takeWhileD)
  with eq show ?thesis by blast
qed

lemma match_alt_shape:
  assumes "match_alt ws s = Some (d, r)"
  shows "\<exists>w mid. w \<in> set ws \<and> s = w @ mid @ r
           \<and> (\<forall>c\<in>set mid. is_sep c \<or> c = CHR ''#'' \<or> is_digit c)"
  using assms
proof (induction ws)
  case Nil
  then show ?case by simp
next
  case (Cons w ws)
  show ?case
  proof (cases "prefix w s \<and> match_ref (drop (length w) s) = Some (d, r)")
    case True
    then obtain mid where m: "drop (length w) s = mid @ r"
      and c: "\<forall>c\<in>set mid. is_sep c \<or> c = CHR ''#'' \<or> is_digit c"
      using match_ref_shape by blast
    from True have "s = w @ drop (length w) s"
      by (auto simp: prefix_def)
    with m have "s = w @ mid @ r" by simp
    with c show ?thesis by auto
  next
    case False
    with Cons.prems have "match_alt ws s = Some (d, r)"
      by (auto split: if_splits option.splits)
    from Cons.IH[OF this] show ?thesis by auto
  qed
qed

lemma match_alt_trigger:
  assumes "match_alt ws s = Some p"
  shows "\<exists>w\<in>set ws. sublist w s"
proof -
  obtain d r where p: "p = (d, r)" by (cases p)
  from match_alt_shape[OF assms[unfolded p]]
  obtain w mid where w: "w \<in> set ws" and s: "s = w @ mid @ r" by blast
  from s have "s = [] @ w @ (mid @ r)" by simp
  then have "sublist w s" unfolding sublist_def by blast
  with w show ?thesis by blast
qed

lemma findall_no_trigger:
  "\<forall>w\<in>set ws. \<not> sublist w s \<Longrightarrow> findall ws s = []"
proof (induction ws s rule: findall.induct)
  case (1 ws)
  then show ?case by simp
next
  case (2 ws c cs)
  have none: "match_alt ws (c # cs) = None"
  proof (cases "match_alt ws (c # cs)")
    case None
    then show ?thesis .
  next
    case (Some p)
    from match_alt_trigger[OF Some] "2.prems" show ?thesis by blast
  qed
  have "\<forall>w\<in>set ws. \<not> sublist w cs"
    using "2.prems" by (simp add: sublist_Cons_right)
  then have "findall ws cs = []" by (rule "2.IH"(1)[OF none])
  then show ?case by (simp only: findall.simps none option.case)
qed

lemma match_ref_nonsep: "\<not> is_sep c \<Longrightarrow> match_ref (c # s) = None"
  by (simp add: match_ref_def)

lemma match_alt_fixes:
  assumes "seps \<noteq> []" and "\<forall>c\<in>set seps. is_sep c"
    and "ds \<noteq> []" and "\<forall>c\<in>set ds. is_digit c"
    and "case post of [] \<Rightarrow> True | c # _ \<Rightarrow> \<not> is_digit c"
  shows "match_alt (hd closing_patterns) (''fixes'' @ seps @ CHR ''#'' # ds @ post) = Some (ds, post)"
proof -
  have e: "\<not> is_sep CHR ''e''" by (simp add: is_sep_def is_space_def)
  show ?thesis
    by (simp add: closing_patterns_def match_ref_nonsep[OF e] match_ref_hit[OF assms])
qed

lemma findall_hit:
  assumes hit: "match_alt ws (x # tgt) = Some (ds, post)"
    and nox: "\<forall>w\<in>set ws. x \<notin> set (tl w)"
    and xc: "\<not> is_sep x" "x \<noteq> CHR ''#''" "\<not> is_digit x"
  shows "ds \<in> set (findall ws (pre @ x # tgt))"
proof (induction pre rule: length_induct)
  case (1 pre)
  show ?case
  proof (cases pre)
    case Nil
    then show ?thesis using hit by simp
  next
    case (Cons a pre1)
    show ?thesis
    proof (cases "match_alt ws (a # pre1 @ x # tgt)")
      case None
      have "length pre1 < length pre" using Cons by simp
      with 1 have "ds \<in> set (findall ws (pre1 @ x # tgt))" by blast
      with None Cons show ?thesis by simp
    next
      case (Some p)
      obtain d r where p: "p = (d, r)" by (cases p)
      from Some p have m: "match_alt ws (a # pre1 @ x # tgt) = Some (d, r)" by simp
      from match_alt_shape[OF m] obtain w mid where w: "w \<in> set ws"
        and eq: "a # pre1 @ x # tgt = w @ mid @ r"
        and mid: "\<forall>c\<in>set mid. is_sep c \<or> c = CHR ''#'' \<or> is_digit c" by blast
      from match_alt_shorter[OF m] have len: "length r < length (a # pre1 @ x # tgt)" .
      have xmid: "x \<notin> set mid" using mid xc by blast
      have xw: "x \<notin> set (tl w)" using nox w by blast
      have xtl: "x \<notin> set (tl (w @ mid))"
      proof (cases w)
        case Nil
        then show ?thesis using xmid by (cases mid) auto
      next
        case (Cons b w')
        then show ?thesis using xw xmid by simp
      qed
      from eq have "pre @ (x # tgt) = (w @ mid) @ r" using Cons by simp
      then obtain us where
        "(pre = (w @ mid) @ us \<and> us @ (x # tgt) = r) \<or> (pre @ us = w @ mid \<and> x # tgt = us @ r)"
        unfolding append_eq_append_conv2 by blast
      then have "\<exists>pre'. r = pre' @ x # tgt"
      proof
        assume "pre = (w @ mid) @ us \<and> us @ (x # tgt) = r"
        then show ?thesis by blast
      next
        assume b: "pre @ us = w @ mid \<and> x # tgt = us @ r"
        show ?thesis
        proof (cases us)
          case Nil
          with b have "r = [] @ x # tgt" by simp
          then show ?thesis by blast
        next
          case (Cons u us')
          with b have "u = x" by simp
          with b Cons have "w @ mid = a # pre1 @ x # us'" using \<open>pre = a # pre1\<close> by simp
          then have "x \<in> set (tl (w @ mid))" by simp
          with xtl show ?thesis by blast
        qed
      qed
      then obtain pre' where r: "r = pre' @ x # tgt" by blast
      with len Cons have "length pre' < length pre" by simp
      with 1 have "ds \<in> set (findall ws (pre' @ x # tgt))" by blast
      with m r Cons show ?thesis by simp
    qed
  qed
qed

subsection \<open>Conversion of the matches\<close>

lemma append_matches_short:
  "\<forall>m\<in>set ms. length m \<le> 4300 \<Longrightarrow>
     append_matches refs ms = Inr (refs @ map decimal_value ms)"
  by (induction ms arbitrary: refs) (simp_all add: int_py_def)

lemma append_matches_long:
  "\<exists>m\<in>set ms. 4300 < length m \<Longrightarrow> append_matches refs ms = Inl ValueError"
proof (induction ms arbitrary: refs)
  case Nil
  then show ?case by simp
next
  case (Cons m ms)
  show ?case
  proof (cases "4300 < length m")
    case True
    then show ?thesis by (simp add: int_py_def)
  next
    case False
    with Cons.prems have "\<exists>m\<in>set ms. 4300 < length m" by auto
    from Cons.IH[OF this] False show ?thesis by (simp add: int_py_def)
  qed
qed

lemma apply_patterns_short:
  "\<forall>p\<in>set ps. \<forall>m\<in>set (findall p (lower body)). length m \<le> 4300 \<Longrightarrow>
     apply_patterns body refs ps
       = Inr (refs @ concat (map (\<lambda>p. map decimal_value (findall p (lower body))) ps))"
  by (induction ps arbitrary: refs) (simp_all add: append_matches_short)

lemma apply_patterns_long:
  "\<exists>p\<in>set ps. \<exists>m\<in>set (findall p (lower body)). 4300 < length m \<Longrightarrow>
     apply_patterns body refs ps = Inl ValueError"
proof (induction ps arbitrary: refs)
  case Nil
  then show ?case by simp
next
  case (Cons p ps)
  show ?case
  proof (cases "\<exists>m\<in>set (findall p (lower body)). 4300 < length m")
    case True
    then show ?thesis by (simp add: append_matches_long)
  next
    case False
    then have short: "\<forall>m\<in>set (findall p (lower body)). length m \<le> 4300" by auto
    from False Cons.prems have "\<exists>p\<in>set ps. \<exists>m\<in>set (findall p (lower body)). 4300 < length m"
      by auto
    from Cons.IH[OF this] show ?thesis by (simp add: append_matches_short[OF short])
  qed
qed

lemma referenced_issues_of_cases:
  "referenced_issues_of body =
     (if \<exists>p\<in>set closing_patterns. \<exists>m\<in>set (findall p (lower body)). 4300 < length m
      then Inl ValueError
      else Inr (concat (map (\<lambda>p. map decimal_value (findall p (lower body))) closing_patterns)))"
proof (cases "\<exists>p\<in>set closing_patterns. \<exists>m\<in>set (findall p (lower body)). 4300 < length m")
  case True
  then show ?thesis
    unfolding referenced_issues_of_def by (simp only: apply_patterns_long if_True)
next
  case False
  then have "\<forall>p\<in>set closing_patterns. \<forall>m\<in>set (findall p (lower body)). length m \<le> 4300"
    by (meson not_le_imp_less)
  from apply_patterns_short[OF this] False show ?thesis
    unfolding referenced_issues_of_def by (simp only: if_False append_Nil)
qed

subsection \<open>Every match is a run of digits of the text\<close>

lemma longest_digit_run_suffix: "longest_digit_run r \<le> longest_digit_run (a @ r)"
  by (induction a) (simp_all add: le_max_iff_disj)

lemma longest_digit_run_covers:
  assumes "\<forall>c\<in>set d. is_digit c"
  shows "length d \<le> longest_digit_run (a @ d @ b)"
proof -
  have "length d \<le> longest_digit_run (d @ b)"
  proof (cases d)
    case Nil
    then show ?thesis by simp
  next
    case (Cons c d')
    have "takeWhile is_digit (d @ b) = d @ takeWhile is_digit b"
      using assms by (simp add: takeWhile_append2)
    then have "length d \<le> length (takeWhile is_digit (d @ b))" by simp
    then show ?thesis using Cons by (simp add: le_max_iff_disj)
  qed
  also have "\<dots> \<le> longest_digit_run (a @ d @ b)" by (rule longest_digit_run_suffix)
  finally show ?thesis .
qed

lemma longest_digit_run_lower: "longest_digit_run (lower s) = longest_digit_run s"
proof (induction s)
  case Nil
  then show ?case by (simp add: lower_def)
next
  case (Cons c cs)
  have "length (takeWhile is_digit (map lower_char xs)) = length (takeWhile is_digit xs)" for xs
    by (induction xs) simp_all
  from this[of "c # cs"] Cons show ?case by (simp add: lower_def)
qed

lemma match_ref_digits:
  assumes "match_ref s = Some (d, r)"
  shows "\<exists>a. s = a @ d @ r \<and> (\<forall>c\<in>set d. is_digit c)"
proof -
  from assms obtain r' where r': "dropWhile is_sep s = CHR ''#'' # r'"
    and d: "d = takeWhile is_digit r'" and r: "r = dropWhile is_digit r'"
    by (auto simp: match_ref_def Let_def split: if_splits list.splits)
  have "s = takeWhile is_sep s @ dropWhile is_sep s" by simp
  also have "\<dots> = (takeWhile is_sep s @ ''#'') @ d @ r"
    using r' d r by simp
  finally have "s = (takeWhile is_sep s @ ''#'') @ d @ r" .
  moreover have "\<forall>c\<in>set d. is_digit c"
    using d by (auto dest: set_takeWhileD)
  ultimately show ?thesis by blast
qed

lemma match_alt_digits:
  assumes "match_alt ws s = Some (d, r)"
  shows "\<exists>a. s = a @ d @ r \<and> (\<forall>c\<in>set d. is_digit c)"
  using assms
proof (induction ws)
  case Nil
  then show ?case by simp
next
  case (Cons w ws)
  show ?case
  proof (cases "prefix w s \<and> match_ref (drop (length w) s) = Some (d, r)")
    case True
    then obtain a where a: "drop (length w) s = a @ d @ r" and dg: "\<forall>c\<in>set d. is_digit c"
      using match_ref_digits by blast
    from True have "s = w @ drop (length w) s"
      by (auto simp: prefix_def)
    with a have "s = (w @ a) @ d @ r" by simp
    with dg show ?thesis by blast
  next
    case False
    with Cons.prems have "match_alt ws s = Some (d, r)"
      by (auto split: if_splits option.splits)
    from Cons.IH[OF this] show ?thesis .
  qed
qed

lemma findall_digit_run:
  "m \<in> set (findall ws s) \<Longrightarrow> length m \<le> longest_digit_run s"
proof (induction ws s rule: findall.induct)
  case (1 ws)
  then show ?case by simp
next
  case (2 ws c cs)
  show ?case
  proof (cases "match_alt ws (c # cs)")
    case None
    with "2.prems" have "m \<in> set (findall ws cs)" by simp
    from "2.IH"(1)[OF None this] have "length m \<le> longest_digit_run cs" .
    then show ?thesis by (simp add: le_max_iff_disj)
  next
    case (Some p)
    obtain d r where p: "p = (d, r)" by (cases p)
    from match_alt_digits[OF Some[unfolded p]]
    obtain a where eq: "c # cs = a @ d @ r" and dg: "\<forall>c\<in>set d. is_digit c" by blast
    from "2.prems" Some p have "m = d \<or> m \<in> set (findall ws r)" by simp
    then show ?thesis
    proof
      assume "m = d"
      with longest_digit_run_covers[OF dg, of a r] eq show ?thesis by simp
    next
      assume "m \<in> set (findall ws r)"
      from "2.IH"(2)[OF Some p[symmetric] this] have "length m \<le> longest_digit_run r" .
      also have "\<dots> \<le> longest_digit_run ((a @ d) @ r)" by (rule longest_digit_run_suffix)
      finally show ?thesis using eq by simp
    qed
  qed
qed

lemma referenced_issues_of_returns:
  assumes "longest_digit_run T \<le> 4300"
  shows "referenced_issues_of T
           = Inr (concat (map (\<lambda>p. map decimal_value (findall p (lower T))) closing_patterns))"
proof -
  have "\<not> (\<exists>p\<in>set closing_patterns. \<exists>m\<in>set (findall p (lower T)). 4300 < length m)"
  proof
    assume "\<exists>p\<in>set closing_patterns. \<exists>m\<in>set (findall p (lower T)). 4300 < length m"
    then obtain p m where "m \<in> set (findall p (lower T))" and long: "4300 < length m" by blast
    from findall_digit_run[OF this(1)] have "length m \<le> longest_digit_run T"
      by (simp add: longest_digit_run_lower)
    with assms long show False by simp
  qed
  then show ?thesis by (simp only: referenced_issues_of_cases if_False)
qed

subsection \<open>Texts without a trigger word\<close>

text \<open>
  Claim C4, as the code has it. The patterns carry no word boundary, so a trigger word is
  found inside a longer word as well. A text whose lower-cased form contains none of the
  trigger words of \<open>closing_patterns\<close> (close, closes, closed, fix, fixes, fixed, resolve,
  resolves, resolved, issue, issues) as a contiguous run of characters, inside a longer word
  or not, yields the empty list of references, and the extraction does not fail.
\<close>

theorem no_trigger_no_reference:
  "\<forall>p\<in>set closing_patterns. \<forall>w\<in>set p. \<not> sublist w (lower T) \<Longrightarrow>
     referenced_issues_of T = Inr []"
proof -
  assume a: "\<forall>p\<in>set closing_patterns. \<forall>w\<in>set p. \<not> sublist w (lower T)"
  have none: "\<forall>p\<in>set closing_patterns. findall p (lower T) = []"
    using a findall_no_trigger by blast
  then have "\<not> (\<exists>p\<in>set closing_patterns. \<exists>m\<in>set (findall p (lower T)). 4300 < length m)"
    by simp
  then have "referenced_issues_of T
               = Inr (concat (map (\<lambda>p. map decimal_value (findall p (lower T))) closing_patterns))"
    by (simp only: referenced_issues_of_cases if_False)
  also have "concat (map (\<lambda>p. map decimal_value (findall p (lower T))) closing_patterns) = []"
    using none by (induction closing_patterns) simp_all
  finally show ?thesis .
qed

theorem no_trigger_no_reference_witness:
  "referenced_issues_of ''Bump version, see #12'' = Inr []"
proof -
  have h: "\<forall>p\<in>set closing_patterns. \<forall>w\<in>set p. \<not> sublist w (lower ''Bump version, see #12'')"
    by code_simp
  show ?thesis by (rule no_trigger_no_reference [OF h])
qed

text \<open>
  Claim C4 as stated fails: the text "Unresolved #5" holds none of the trigger words as a
  word, only "resolved" inside "Unresolved", and the extraction returns issue 5.
\<close>

theorem trigger_inside_word_extracted:
  "referenced_issues_of ''Unresolved #5'' = Inr [5]"
  by code_simp

subsection \<open>Texts with the phrase "fixes #N"\<close>

lemma fixes_match_found:
  assumes "lower w = ''fixes''"
    and "seps \<noteq> []" and "\<forall>c\<in>set seps. is_space c \<or> c = CHR '':''"
    and "ds \<noteq> []" and "\<forall>c\<in>set ds. is_digit c"
    and "case post of [] \<Rightarrow> True | c # _ \<Rightarrow> \<not> is_digit c"
  shows "ds \<in> set (findall (hd closing_patterns) (lower (pre @ w @ seps @ ''#'' @ ds @ post)))"
proof -
  have seps: "\<forall>c\<in>set seps. is_sep c" using assms(3) by (simp add: is_sep_def)
  have post: "case lower post of [] \<Rightarrow> True | c # _ \<Rightarrow> \<not> is_digit c"
    using assms(6) by (cases post) (simp_all add: lower_def)
  have low: "lower (pre @ w @ seps @ ''#'' @ ds @ post)
               = lower pre @ CHR ''f'' # (''ixes'' @ seps @ CHR ''#'' # ds @ lower post)"
  proof -
    have h: "lower (CHR ''#'' # xs) = CHR ''#'' # lower xs" for xs
      by (simp add: lower_def lower_char_def)
    show ?thesis
      by (simp only: lower_append assms(1) h lower_fix_seps[OF seps]
            lower_fix_digits[OF assms(5)] append_Cons append_Nil)
  qed
  have hit: "match_alt (hd closing_patterns) (CHR ''f'' # (''ixes'' @ seps @ CHR ''#'' # ds @ lower post))
               = Some (ds, lower post)"
    using match_alt_fixes[OF assms(2) seps assms(4,5) post] by simp
  have nox: "\<forall>w\<in>set (hd closing_patterns). CHR ''f'' \<notin> set (tl w)"
    by (simp add: closing_patterns_def)
  have xc: "\<not> is_sep CHR ''f''" "CHR ''f'' \<noteq> CHR ''#''" "\<not> is_digit CHR ''f''"
    by (simp_all add: is_sep_def is_space_def is_digit_def)
  show ?thesis
    unfolding low by (rule findall_hit[OF hit nox xc])
qed

lemma fixes_reference_cases:
  assumes "lower w = ''fixes''"
    and "seps \<noteq> []" and "\<forall>c\<in>set seps. is_space c \<or> c = CHR '':''"
    and "ds \<noteq> []" and "\<forall>c\<in>set ds. is_digit c"
    and "case post of [] \<Rightarrow> True | c # _ \<Rightarrow> \<not> is_digit c"
  shows "4300 < length ds \<Longrightarrow>
           referenced_issues_of (pre @ w @ seps @ ''#'' @ ds @ post) = Inl ValueError"
    and "referenced_issues_of (pre @ w @ seps @ ''#'' @ ds @ post) = Inr refs \<Longrightarrow>
           int_py ds = Inr (decimal_value ds) \<and> decimal_value ds \<in> set refs"
proof -
  let ?T = "pre @ w @ seps @ ''#'' @ ds @ post"
  have hd_in: "hd closing_patterns \<in> set closing_patterns"
    by (simp add: closing_patterns_def)
  have found: "ds \<in> set (findall (hd closing_patterns) (lower ?T))"
    by (rule fixes_match_found[OF assms])
  {
    assume "4300 < length ds"
    with found hd_in
    have "\<exists>p\<in>set closing_patterns. \<exists>m\<in>set (findall p (lower ?T)). 4300 < length m" by blast
    then show "referenced_issues_of ?T = Inl ValueError"
      by (simp only: referenced_issues_of_cases if_True)
  }
  {
    assume r: "referenced_issues_of ?T = Inr refs"
    have no_long: "\<not> (\<exists>p\<in>set closing_patterns. \<exists>m\<in>set (findall p (lower ?T)). 4300 < length m)"
    proof
      assume "\<exists>p\<in>set closing_patterns. \<exists>m\<in>set (findall p (lower ?T)). 4300 < length m"
      then have "referenced_issues_of ?T = Inl ValueError"
        by (simp only: referenced_issues_of_cases if_True)
      with r show False by simp
    qed
    with found hd_in have short: "\<not> 4300 < length ds" by blast
    from no_long r
    have refs: "refs = concat (map (\<lambda>p. map decimal_value (findall p (lower ?T))) closing_patterns)"
      by (simp only: referenced_issues_of_cases if_False sum.inject)
    have "decimal_value ds \<in> set refs"
      unfolding refs using found hd_in by auto
    with short show "int_py ds = Inr (decimal_value ds) \<and> decimal_value ds \<in> set refs"
      by (simp add: int_py_def)
  }
qed

text \<open>
  Claim C3, as the code has it. Let a text contain the word "fixes" in any casing, followed
  by one or more whitespace characters or colons, the character \<open>#\<close> and a number written
  as a non-empty run of decimal digits \<open>ds\<close> that ends the text or is followed by a
  non-digit. Whatever precedes and follows the phrase: whenever the extraction returns, the
  number is among the returned references; the extraction does return when no run of digits
  of the text is longer than 4300; and it fails with \<open>ValueError\<close> when \<open>ds\<close> itself is
  longer than 4300 digits. On the text "This change fixes #42 and relates to issue #7" the
  extraction returns 42 and 7 and nothing else.
\<close>

theorem fixes_reference_extracted:
  assumes "lower w = ''fixes''"
    and "seps \<noteq> []" and "\<forall>c\<in>set seps. is_space c \<or> c = CHR '':''"
    and "ds \<noteq> []" and "\<forall>c\<in>set ds. is_digit c"
    and "case post of [] \<Rightarrow> True | c # _ \<Rightarrow> \<not> is_digit c"
  shows "(\<forall>refs. referenced_issues_of (pre @ w @ seps @ ''#'' @ ds @ post) = Inr refs \<longrightarrow>
            int_py ds = Inr (decimal_value ds) \<and> decimal_value ds \<in> set refs)
       \<and> (longest_digit_run (pre @ w @ seps @ ''#'' @ ds @ post) \<le> 4300 \<longrightarrow>
            (\<exists>refs. referenced_issues_of (pre @ w @ seps @ ''#'' @ ds @ post) = Inr refs
                     \<and> decimal_value ds \<in> set refs))
       \<and> (4300 < length ds \<longrightarrow>
            referenced_issues_of (pre @ w @ seps @ ''#'' @ ds @ post) = Inl ValueError)
       \<and> referenced_issues_of ''This change fixes #42 and relates to issue #7'' = Inr [42, 7]"
proof -
  let ?T = "pre @ w @ seps @ ''#'' @ ds @ post"
  have a: "\<forall>refs. referenced_issues_of ?T = Inr refs \<longrightarrow>
             int_py ds = Inr (decimal_value ds) \<and> decimal_value ds \<in> set refs"
    using fixes_reference_cases(2)[OF assms] by blast
  have b: "longest_digit_run ?T \<le> 4300 \<longrightarrow>
             (\<exists>refs. referenced_issues_of ?T = Inr refs \<and> decimal_value ds \<in> set refs)"
  proof
    assume "longest_digit_run ?T \<le> 4300"
    from referenced_issues_of_returns[OF this] obtain refs
      where r: "referenced_issues_of ?T = Inr refs" by blast
    with a show "\<exists>refs. referenced_issues_of ?T = Inr refs \<and> decimal_value ds \<in> set refs"
      by blast
  qed
  have c: "4300 < length ds \<longrightarrow> referenced_issues_of ?T = Inl ValueError"
    using fixes_reference_cases(1)[OF assms] by blast
  have d: "referenced_issues_of ''This change fixes #42 and relates to issue #7'' = Inr [42, 7]"
    by code_simp
  from a b c d show ?thesis by blast
qed

theorem fixes_reference_extracted_witness:
  "\<exists>refs. referenced_issues_of ''Patch FiXeS: #042, thanks'' = Inr refs \<and> 42 \<in> set refs"
proof -
  have h1: "lower ''FiXeS'' = ''fixes''" by code_simp
  have h2: "'': '' \<noteq> []" by simp
  have h3: "\<forall>c\<in>set '': ''. is_space c \<or> c = CHR '':''" by code_simp
  have h4: "''042'' \<noteq> []" by simp
  have h5: "\<forall>c\<in>set ''042''. is_digit c" by code_simp
  have h6: "case '', thanks'' of [] \<Rightarrow> True | c # _ \<Rightarrow> \<not> is_digit c" by code_simp
  have h7: "longest_digit_run (''Patch '' @ ''FiXeS'' @ '': '' @ ''#'' @ ''042'' @ '', thanks'') \<le> 4300"
    by code_simp
  have v: "decimal_value ''042'' = 42" by code_simp
  from fixes_reference_extracted [OF h1 h2 h3 h4 h5 h6, of "''Patch ''"] h7
  have "\<exists>refs. referenced_issues_of (''Patch '' @ ''FiXeS'' @ '': '' @ ''#'' @ ''042'' @ '', thanks'')
                  = Inr refs \<and> decimal_value ''042'' \<in> set refs"
    by blast
  then show ?thesis by (simp add: v)
qed

text \<open>
  Claim C3 as stated fails: in the text made of "fixes #" and 4301 digits 7 the conversion
  of the number raises, so the extraction returns no reference at all.
\<close>

theorem long_reference_not_extracted:
  "referenced_issues_of (''fixes #'' @ replicate 4301 CHR ''7'') = Inl ValueError"
proof -
  have h1: "lower ''fixes'' = ''fixes''" by code_simp
  have h2: "'' '' \<noteq> []" by simp
  have h3: "\<forall>c\<in>set '' ''. is_space c \<or> c = CHR '':''" by code_simp
  have h4: "replicate 4301 CHR ''7'' \<noteq> []" by simp
  have d7: "is_digit CHR ''7''" by code_simp
  have h5: "\<forall>c\<in>set (replicate 4301 CHR ''7''). is_digit c" using d7 by simp
  have h6: "case [] of [] \<Rightarrow> True | c # _ \<Rightarrow> \<not> is_digit c" by simp
  have len: "4300 < length (replicate 4301 CHR ''7'')" by simp
  from fixes_reference_cases(1)[OF h1 h2 h3 h4 h5 h6 len, of "[]"]
  show ?thesis by simp
qed

section \<open>Properties of the per-item fetch operations\<close>

subsection \<open>Formatting of file changes\<close>

lemma replace_single:
  "replace [c] new s = concat (map (\<lambda>x. if x = c then new else [x]) s)"
proof (induction s)
  case Nil
  then show ?case by (simp add: replace.simps)
next
  case (Cons x s)
  show ?case
  proof (cases "x = c")
    case True
    then show ?thesis
      using Cons by (subst replace.simps) simp
  next
    case False
    then show ?thesis
      using Cons by (subst replace.simps) auto
  qed
qed

lemma newline_not_in_delimiter: "newline \<notin> set PATCH_NEWLINE_DELIMITER"
  by (simp add: newline_def PATCH_NEWLINE_DELIMITER_def)

lemma replace_newline_free:
  "newline \<notin> set (replace [newline] PATCH_NEWLINE_DELIMITER p)"
  using newline_not_in_delimiter by (auto simp: replace_single)

lemma fc_patch_of:
  "fc_patch (file_change_of f)
     = (case f_patch f of
          None \<Rightarrow> []
        | Some p \<Rightarrow> concat (map (\<lambda>c. if c = newline then ''|;|'' else [c]) p))"
  by (simp add: file_change_of_def replace_single PATCH_NEWLINE_DELIMITER_def
        split: option.splits)

lemma fc_patch_newline_free: "newline \<notin> set (fc_patch (file_change_of f))"
  using replace_newline_free by (simp add: file_change_of_def split: option.splits)

lemma fetch_pr_file_changes_cases:
  "fetch_pr_file_changes repo pr_number
     = (case get_pull repo pr_number of
          Inl e \<Rightarrow> []
        | Inr pr \<Rightarrow> (case pull_get_files pr of
                      Inl e \<Rightarrow> []
                    | Inr files \<Rightarrow> map file_change_of files))"
proof -
  have "foldl (\<lambda>file_changes f. file_changes @ [file_change_of f]) acc files
          = acc @ map file_change_of files" for acc files
    by (induction files arbitrary: acc) simp_all
  then show ?thesis
    by (simp add: fetch_pr_file_changes_def fetch_pr_file_changes_try_def split: sum.splits)
qed

lemma fetched_patch_newline_free:
  "change \<in> set (fetch_pr_file_changes repo pr_number) \<Longrightarrow> newline \<notin> set (fc_patch change)"
  using fc_patch_newline_free
  by (auto simp: fetch_pr_file_changes_cases split: sum.splits)

lemma format_file_changes_join:
  "format_file_changes pr_number changes
     = join FILE_CHANGE_DELIMITER
         (map (\<lambda>change. ''PR#'' @ str_int pr_number @ '' - '' @ fc_filename change
                          @ '': '' @ fc_patch change) changes)"
proof -
  have "foldl (\<lambda>formatted change. formatted @ [g change]) acc changes = acc @ map g changes"
    for acc and g :: "file_change \<Rightarrow> string"
    by (induction changes arbitrary: acc) simp_all
  then show ?thesis by (simp add: format_file_changes_def)
qed

lemma set_join: "set (join d xs) \<subseteq> set d \<union> (\<Union>x\<in>set xs. set x)"
  by (induction d xs rule: join.induct) auto

lemma str_nat_digits: "c \<in> set (str_nat n) \<Longrightarrow> is_digit c"
proof (induction n arbitrary: c rule: str_nat.induct)
  case (1 n)
  have d: "is_digit (char_of (48 + k))" if "k < 10" for k :: nat
    using that by (simp add: is_digit_def)
  show ?case
  proof (cases "n < 10")
    case True
    with "1.prems" d[of n] show ?thesis by (subst (asm) str_nat.simps) simp
  next
    case False
    with "1.prems" have "c \<in> set (str_nat (n div 10)) \<or> c = char_of (48 + n mod 10)"
      by (subst (asm) str_nat.simps) auto
    then show ?thesis
    proof
      assume "c \<in> set (str_nat (n div 10))"
      with "1.IH"[OF False] show ?thesis .
    next
      assume "c = char_of (48 + n mod 10)"
      with d[of "n mod 10"] show ?thesis by simp
    qed
  qed
qed

lemma newline_not_in_str_int: "newline \<notin> set (str_int i)"
proof
  assume a: "newline \<in> set (str_int i)"
  have nd: "\<not> is_digit newline" by (simp add: is_digit_def newline_def)
  have nm: "newline \<noteq> CHR ''-''" by (simp add: newline_def)
  from a nm have "newline \<in> set (str_nat (nat (- i))) \<or> newline \<in> set (str_nat (nat i))"
    by (auto simp: str_int_def split: if_splits)
  with str_nat_digits nd show False by blast
qed

lemma entry_newline_free:
  assumes "newline \<notin> set (fc_filename change)" and "newline \<notin> set (fc_patch change)"
  shows "newline \<notin> set (''PR#'' @ str_int pr_number @ '' - '' @ fc_filename change
                            @ '': '' @ fc_patch change)"
  using assms newline_not_in_str_int[of pr_number] by (simp add: newline_def)

text \<open>
  Claim C10, as the code has it. When the files of a pull request can be fetched, the
  formatted string is the entries "PR#<id> - <filename>: <patch>" of the files, in order,
  joined by " || "; in the patch of an entry every line feed of the patch text is replaced
  by "|;|", so that no patch part holds a raw line feed, whether the fetch succeeded or
  not. Only the patch is rewritten: the whole string is free of line feeds when no
  filename holds one.
\<close>

theorem formatted_file_changes:
  "(\<forall>pr files. get_pull repo pr_number = Inr pr \<and> pull_get_files pr = Inr files \<longrightarrow>
      format_file_changes pr_number (fetch_pr_file_changes repo pr_number)
        = join '' || ''
            (map (\<lambda>f. ''PR#'' @ str_int pr_number @ '' - '' @ f_filename f @ '': ''
                        @ (case f_patch f of
                             None \<Rightarrow> []
                           | Some p \<Rightarrow> concat (map (\<lambda>c. if c = newline then ''|;|'' else [c]) p)))
               files)
      \<and> ((\<forall>f\<in>set files. newline \<notin> set (f_filename f)) \<longrightarrow>
           newline \<notin> set (format_file_changes pr_number (fetch_pr_file_changes repo pr_number))))
   \<and> (\<forall>change\<in>set (fetch_pr_file_changes repo pr_number). newline \<notin> set (fc_patch change))"
proof -
  have patches: "\<forall>change\<in>set (fetch_pr_file_changes repo pr_number). newline \<notin> set (fc_patch change)"
    using fetched_patch_newline_free by blast
  have main: "format_file_changes pr_number (fetch_pr_file_changes repo pr_number)
        = join '' || ''
            (map (\<lambda>f. ''PR#'' @ str_int pr_number @ '' - '' @ f_filename f @ '': ''
                        @ (case f_patch f of
                             None \<Rightarrow> []
                           | Some p \<Rightarrow> concat (map (\<lambda>c. if c = newline then ''|;|'' else [c]) p)))
               files)
      \<and> ((\<forall>f\<in>set files. newline \<notin> set (f_filename f)) \<longrightarrow>
           newline \<notin> set (format_file_changes pr_number (fetch_pr_file_changes repo pr_number)))"
    if ok: "get_pull repo pr_number = Inr pr" "pull_get_files pr = Inr files" for pr files
  proof -
    have fetched: "fetch_pr_file_changes repo pr_number = map file_change_of files"
      using ok by (simp add: fetch_pr_file_changes_cases)
    have name: "fc_filename (file_change_of f) = f_filename f" for f
      by (simp add: file_change_of_def)
    have eq: "format_file_changes pr_number (fetch_pr_file_changes repo pr_number)
        = join '' || ''
            (map (\<lambda>f. ''PR#'' @ str_int pr_number @ '' - '' @ f_filename f @ '': ''
                        @ (case f_patch f of
                             None \<Rightarrow> []
                           | Some p \<Rightarrow> concat (map (\<lambda>c. if c = newline then ''|;|'' else [c]) p)))
               files)"
      unfolding fetched format_file_changes_join
      by (simp add: comp_def name fc_patch_of FILE_CHANGE_DELIMITER_def
            PATCH_NEWLINE_DELIMITER_def)
    have free: "newline \<notin> set (format_file_changes pr_number (fetch_pr_file_changes repo pr_number))"
      if names: "\<forall>f\<in>set files. newline \<notin> set (f_filename f)"
    proof
      assume "newline \<in> set (format_file_changes pr_number (fetch_pr_file_changes repo pr_number))"
      with set_join[of FILE_CHANGE_DELIMITER]
      have "newline \<in> set FILE_CHANGE_DELIMITER
            \<or> (\<exists>change\<in>set (fetch_pr_file_changes repo pr_number).
                  newline \<in> set (''PR#'' @ str_int pr_number @ '' - '' @ fc_filename change
                                     @ '': '' @ fc_patch change))"
        unfolding format_file_changes_join by fastforce
      moreover have "newline \<notin> set FILE_CHANGE_DELIMITER"
        by (simp add: newline_def FILE_CHANGE_DELIMITER_def)
      ultimately obtain change where c: "change \<in> set (fetch_pr_file_changes repo pr_number)"
        and n: "newline \<in> set (''PR#'' @ str_int pr_number @ '' - '' @ fc_filename change
                                   @ '': '' @ fc_patch change)"
        by blast
      from c fetched obtain f where f: "f \<in> set files" and cf: "change = file_change_of f"
        by auto
      from names f have "newline \<notin> set (fc_filename change)" by (simp add: cf name)
      moreover from patches c have "newline \<notin> set (fc_patch change)" by blast
      ultimately show False using entry_newline_free n by blast
    qed
    from eq free show ?thesis by blast
  qed
  from main patches show ?thesis by blast
qed

theorem formatted_file_changes_witness:
  "format_file_changes 10 (fetch_pr_file_changes example_repo 10)
     = ''PR#10 - main.py: -a = b | c|;|+a = b || c''
   \<and> newline \<notin> set (format_file_changes 10 (fetch_pr_file_changes example_repo 10))"
proof -
  have h1: "get_pull example_repo 10 = Inr example_pull"
    by (simp add: example_repo_def)
  have h2: "pull_get_files example_pull
              = Inr [\<lparr>f_filename = ''main.py'', f_additions = 1, f_deletions = 1, f_changes = 2,
                      f_status = ''modified'',
                      f_patch = Some (''-a = b | c'' @ [newline] @ ''+a = b || c'')\<rparr>]"
    by (simp add: example_pull_def)
  have h3: "\<forall>f\<in>set [\<lparr>f_filename = ''main.py'', f_additions = 1, f_deletions = 1, f_changes = 2,
                      f_status = ''modified'',
                      f_patch = Some (''-a = b | c'' @ [newline] @ ''+a = b || c'')\<rparr>].
              newline \<notin> set (f_filename f)"
    by (simp add: newline_def)
  have s: "str_int 10 = ''10''" by code_simp
  from formatted_file_changes [of example_repo 10] h1 h2 h3
  have "format_file_changes 10 (fetch_pr_file_changes example_repo 10)
        = join '' || ''
            (map (\<lambda>f. ''PR#'' @ str_int 10 @ '' - '' @ f_filename f @ '': ''
                        @ (case f_patch f of
                             None \<Rightarrow> []
                           | Some p \<Rightarrow> concat (map (\<lambda>c. if c = newline then ''|;|'' else [c]) p)))
               [\<lparr>f_filename = ''main.py'', f_additions = 1, f_deletions = 1, f_changes = 2,
                      f_status = ''modified'',
                      f_patch = Some (''-a = b | c'' @ [newline] @ ''+a = b || c'')\<rparr>])
      \<and> newline \<notin> set (format_file_changes 10 (fetch_pr_file_changes example_repo 10))"
    by blast
  then show ?thesis by (simp add: s newline_def)
qed

text \<open>
  Claim C10 as stated fails: a file whose name holds a line feed gives a formatted string
  with that line feed in it, although the line feed of its patch is replaced.
\<close>

theorem filename_newline_kept:
  "format_file_changes 12 (fetch_pr_file_changes example_repo_newline 12)
     = ''PR#12 - a'' @ [newline] @ ''b.txt: +x|;|+y''
   \<and> newline \<in> set (format_file_changes 12 (fetch_pr_file_changes example_repo_newline 12))"
  by code_simp

subsection \<open>Failures of the remote source\<close>

lemma map_fst_map_entry: "map fst (AList.map_entry k f xs) = map fst xs"
  by (induction xs) simp_all

lemma enrich_keys: "map fst (enrich repo issue_solver_data) = map fst issue_solver_data"
proof -
  have "map fst (foldl (\<lambda>d issue_number. AList.map_entry issue_number (g issue_number) d) data ks)
          = map fst data" for ks data and g :: "int \<Rightarrow> issue_node \<Rightarrow> issue_node"
    by (induction ks arbitrary: data) (simp_all add: map_fst_map_entry)
  then show ?thesis by (simp add: enrich_def)
qed



section \<open>Properties of the scanner and of the graph builder\<close>

subsection \<open>Inversion and enrichment\<close>

lemma set_alist_update: "set (AList.update k v al) \<subseteq> insert (k, v) (set al)"
  by (induction al) auto

lemma make_pr_info_number: "make_pr_info pr = Inr info \<Longrightarrow> info_number info = p_number pr"
  by (auto simp: make_pr_info_def split: option.splits sum.splits)

lemma link_issue_distinct:
  "distinct (map fst d) \<Longrightarrow> distinct (map fst (link_issue pr_data d j))"
  by (simp add: link_issue_def Let_def distinct_map_entry distinct_update)

lemma link_issue_keys: "fst ` set (link_issue pr_data d j) = insert j (fst ` set d)"
proof (cases "map_of d j")
  case None
  then show ?thesis
    by (simp add: link_issue_def Let_def dom_map_entry dom_update)
next
  case (Some node)
  then have "(j, node) \<in> set d" by (rule map_of_SomeD)
  then have "j \<in> fst ` set d" by force
  with Some show ?thesis
    by (auto simp: link_issue_def Let_def dom_map_entry)
qed

lemma linked_prs_of_link_issue:
  "linked_prs_of (link_issue pr_data d j) i
     = linked_prs_of d i @ (if i = j then [pr_stub pr_data] else [])"
proof (cases "map_of d j")
  case None
  then show ?thesis
    by (simp add: linked_prs_of_def link_issue_def Let_def map_of_map_entry update_conv'
          new_issue_node_def)
next
  case (Some node)
  then show ?thesis
    by (simp add: linked_prs_of_def link_issue_def Let_def map_of_map_entry)
qed

lemma linked_prs_of_links:
  "linked_prs_of (foldl (link_issue pr_data) d refs) i
     = linked_prs_of d i @ replicate (count_list refs i) (pr_stub pr_data)"
proof (induction refs arbitrary: d)
  case Nil
  then show ?case by simp
next
  case (Cons r refs)
  show ?case
    by (simp add: Cons.IH linked_prs_of_link_issue replicate_append_same)
qed

lemma links_distinct:
  "distinct (map fst d) \<Longrightarrow> distinct (map fst (foldl (link_issue pr_data) d refs))"
  by (induction refs arbitrary: d) (simp_all add: link_issue_distinct)

lemma links_keys:
  "fst ` set (foldl (link_issue pr_data) d refs) = fst ` set d \<union> set refs"
  by (induction refs arbitrary: d) (auto simp: link_issue_keys)

lemma invert_from:
  "linked_prs_of (foldl (\<lambda>issue_solver_data (pr_number, pr_data).
                           foldl (link_issue pr_data) issue_solver_data
                             (info_referenced_issues pr_data)) d m) i
     = linked_prs_of d i
       @ concat (map (\<lambda>e. replicate (count_list (info_referenced_issues (snd e)) i)
                              (pr_stub (snd e))) m)"
proof (induction m arbitrary: d)
  case Nil
  then show ?case by simp
next
  case (Cons e m)
  obtain k pr_data where e: "e = (k, pr_data)" by (cases e)
  show ?case by (simp add: e Cons.IH linked_prs_of_links)
qed

lemma invert_distinct_from:
  "distinct (map fst d) \<Longrightarrow>
     distinct (map fst (foldl (\<lambda>issue_solver_data (pr_number, pr_data).
                                 foldl (link_issue pr_data) issue_solver_data
                                   (info_referenced_issues pr_data)) d m))"
proof (induction m arbitrary: d)
  case Nil
  then show ?case by simp
next
  case (Cons e m)
  obtain k pr_data where e: "e = (k, pr_data)" by (cases e)
  show ?case using Cons.prems by (simp add: e Cons.IH links_distinct)
qed

lemma invert_keys_from:
  "fst ` set (foldl (\<lambda>issue_solver_data (pr_number, pr_data).
                       foldl (link_issue pr_data) issue_solver_data
                         (info_referenced_issues pr_data)) d m)
     = fst ` set d \<union> (\<Union>e\<in>set m. set (info_referenced_issues (snd e)))"
proof (induction m arbitrary: d)
  case Nil
  then show ?case by simp
next
  case (Cons e m)
  obtain k pr_data where e: "e = (k, pr_data)" by (cases e)
  show ?case by (auto simp: e Cons.IH links_keys)
qed

lemma linked_prs_of_invert:
  "linked_prs_of (invert m) i
     = concat (map (\<lambda>e. replicate (count_list (info_referenced_issues (snd e)) i)
                            (pr_stub (snd e))) m)"
  unfolding invert_def invert_from by (simp add: linked_prs_of_def)

lemma invert_distinct: "distinct (map fst (invert m))"
  by (simp add: invert_def invert_distinct_from)

lemma invert_keys: "fst ` set (invert m) = (\<Union>e\<in>set m. set (info_referenced_issues (snd e)))"
  by (simp add: invert_def invert_keys_from)

lemma stubs_of_change_set:
  assumes "distinct (map fst m)" and "\<forall>e\<in>set m. info_number (snd e) = fst e"
    and "(n, pr_data) \<in> set m"
  shows "filter (\<lambda>s. lp_number s = n)
           (concat (map (\<lambda>e. replicate (count_list (info_referenced_issues (snd e)) i)
                                (pr_stub (snd e))) m))
         = replicate (count_list (info_referenced_issues pr_data) i) (pr_stub pr_data)"
  using assms
proof (induction m)
  case Nil
  then show ?case by simp
next
  case (Cons e m)
  have num: "lp_number (pr_stub x) = info_number x" for x
    by (simp add: pr_stub_def)
  have other: "filter (\<lambda>s. lp_number s = n)
                 (concat (map (\<lambda>e. replicate (count_list (info_referenced_issues (snd e)) i)
                                      (pr_stub (snd e))) xs)) = []"
    if "n \<notin> fst ` set xs" and "\<forall>e\<in>set xs. info_number (snd e) = fst e"
    for xs :: "(int \<times> pr_info) list"
    using that by (induction xs) (auto simp: num)
  from Cons.prems(1) have notin: "fst e \<notin> fst ` set m" and dist: "distinct (map fst m)"
    by simp_all
  from Cons.prems(2) have inv: "\<forall>e\<in>set m. info_number (snd e) = fst e"
    and hd: "info_number (snd e) = fst e" by simp_all
  show ?case
  proof (cases "(n, pr_data) = e")
    case True
    then have e: "fst e = n" "snd e = pr_data" by auto
    from notin e have "n \<notin> fst ` set m" by simp
    from other[OF this inv] show ?thesis by (simp add: e num hd[unfolded e])
  next
    case False
    with Cons.prems(3) have in_tl: "(n, pr_data) \<in> set m" by simp
    then have "n \<in> fst ` set m" by force
    with notin have "fst e \<noteq> n" by auto
    with hd have "info_number (snd e) \<noteq> n" by simp
    with Cons.IH[OF dist inv in_tl] show ?thesis by (simp add: num)
  qed
qed

subsection \<open>Enrichment keeps the linked pull requests\<close>

lemma enrich_pr_fold:
  "snd (foldl (enrich_pr repo) (node, acc) prs)
     = acc @ map (\<lambda>pr_info.
                     pr_info\<lparr>lp_file_changes :=
                                Some (format_file_changes (lp_number pr_info)
                                        (fetch_pr_file_changes repo (lp_number pr_info))),
                              lp_commit_messages :=
                                Some (fetch_commit_messages repo (lp_number pr_info))\<rparr>) prs"
  by (induction prs arbitrary: node acc) (simp_all add: enrich_pr_def Let_def)

lemma enrich_issue_numbers:
  "map lp_number (node_linked_prs (enrich_issue repo k node)) = map lp_number (node_linked_prs node)"
proof -
  have "node_linked_prs (update_from_issue repo k node) = node_linked_prs node"
    by (simp add: update_from_issue_def split: sum.splits)
  then show ?thesis
    by (simp add: enrich_issue_def Let_def enrich_pr_fold comp_def)
qed

lemma map_of_enrich_from:
  "distinct ks \<Longrightarrow>
     map_of (foldl (\<lambda>d issue_number. AList.map_entry issue_number (g issue_number) d) data ks) i
       = (if i \<in> set ks then map_option (g i) (map_of data i) else map_of data i)"
proof (induction ks arbitrary: data)
  case Nil
  then show ?case by simp
next
  case (Cons k ks)
  then have d: "distinct ks" and nk: "k \<notin> set ks" by simp_all
  show ?case
    using nk by (auto simp: Cons.IH[OF d] map_of_map_entry split: option.splits)
qed

lemma linked_prs_of_enrich:
  assumes "distinct (map fst data)"
  shows "map lp_number (linked_prs_of (enrich repo data) i) = map lp_number (linked_prs_of data i)"
proof (cases "map_of data i")
  case None
  then show ?thesis
    by (simp add: linked_prs_of_def enrich_def map_of_enrich_from[OF assms])
next
  case (Some node)
  then have "i \<in> set (map fst data)" by (metis map_of_SomeD fst_conv image_eqI set_map)
  with Some show ?thesis
    by (simp add: linked_prs_of_def enrich_def map_of_enrich_from[OF assms] enrich_issue_numbers)
qed

subsection \<open>The scanned mapping\<close>

lemma scan_prs_invariant:
  assumes "scan_prs max_prs prs failure m c = Inr (m', c', rest)"
    and "distinct (map fst m)" and "\<forall>e\<in>set m. info_number (snd e) = fst e"
  shows "distinct (map fst m') \<and> (\<forall>e\<in>set m'. info_number (snd e) = fst e)"
  using assms
proof (induction prs arbitrary: m c)
  case Nil
  then show ?case by (simp split: option.splits)
next
  case (Cons pr prs)
  show ?case
  proof (cases "p_merged pr = Inr True")
    case False
    then have "scan_prs max_prs (pr # prs) failure m c = scan_prs max_prs prs failure m c"
      by (cases "p_merged pr") auto
    with Cons show ?thesis by simp
  next
    case True
    show ?thesis
    proof (cases "make_pr_info pr")
      case (Inl e)
      with True Cons.prems(1) have "scan_prs max_prs prs failure m (c + 1) = Inr (m', c', rest)"
        by simp
      from Cons.IH[OF this Cons.prems(2,3)] show ?thesis .
    next
      case (Inr info)
      define m1 where "m1 = (if info_referenced_issues info \<noteq> []
                             then AList.update (p_number pr) info m else m)"
      have d: "distinct (map fst m1)"
        using Cons.prems(2) by (simp add: m1_def distinct_update)
      have k: "\<forall>e\<in>set m1. info_number (snd e) = fst e"
      proof
        fix e assume "e \<in> set m1"
        then have "e = (p_number pr, info) \<or> e \<in> set m"
          using set_alist_update[of "p_number pr" info m] by (auto simp: m1_def split: if_splits)
        then show "info_number (snd e) = fst e"
          using Cons.prems(3) make_pr_info_number[OF Inr] by auto
      qed
      show ?thesis
      proof (cases "c + 1 \<ge> max_prs")
        case True
        with \<open>p_merged pr = Inr True\<close> Inr Cons.prems(1) have "m' = m1"
          by (simp add: m1_def Let_def)
        with d k show ?thesis by simp
      next
        case False
        with \<open>p_merged pr = Inr True\<close> Inr Cons.prems(1)
        have "scan_prs max_prs prs failure m1 (c + 1) = Inr (m', c', rest)"
          by (simp add: m1_def Let_def)
        from Cons.IH[OF this d k] show ?thesis .
      qed
    qed
  qed
qed

lemma scan_invariant:
  assumes "scan repo max_prs = Inr (m, c, rest)"
  shows "distinct (map fst m)" and "\<forall>e\<in>set m. info_number (snd e) = fst e"
  using scan_prs_invariant[OF assms[unfolded scan_def]] by simp_all

text \<open>
  What the loop does when nothing goes wrong: with a cap of at least one, no merged
  change-set whose processing fails, and an iteration that does not fail, the counter ends
  at the cap or at the number of merged change-sets, whichever is less.
\<close>

lemma scan_prs_cap:
  assumes "\<forall>pr\<in>set prs. \<exists>merged. p_merged pr = Inr merged
             \<and> (merged \<longrightarrow> (\<exists>info. make_pr_info pr = Inr info))"
    and "c < max_prs"
  shows "\<exists>m' rest. scan_prs max_prs prs None m c
           = Inr (m', min max_prs (c + int (length (filter (\<lambda>pr. p_merged pr = Inr True) prs))),
                  rest)"
  using assms
proof (induction prs arbitrary: m c)
  case Nil
  then show ?case by simp
next
  case (Cons pr prs)
  from Cons.prems(1) obtain merged where merged: "p_merged pr = Inr merged"
    and info: "merged \<longrightarrow> (\<exists>info. make_pr_info pr = Inr info)" by auto
  from Cons.prems(1) have rest: "\<forall>pr\<in>set prs. \<exists>merged. p_merged pr = Inr merged
             \<and> (merged \<longrightarrow> (\<exists>info. make_pr_info pr = Inr info))" by simp
  show ?case
  proof (cases merged)
    case False
    with merged Cons.IH[OF rest Cons.prems(2), of m] show ?thesis by simp
  next
    case True
    with info obtain i where i: "make_pr_info pr = Inr i" by auto
    show ?thesis
    proof (cases "c + 1 \<ge> max_prs")
      case True
      with \<open>merged\<close> merged i Cons.prems(2) show ?thesis by (simp add: Let_def)
    next
      case False
      then have lt: "c + 1 < max_prs" by simp
      have step: "scan_prs max_prs (pr # prs) None m c
                    = scan_prs max_prs prs None
                        (if info_referenced_issues i \<noteq> []
                         then AList.update (p_number pr) i m else m) (c + 1)"
        using False \<open>merged\<close> merged i by (simp add: Let_def)
      from Cons.IH[OF rest lt, of "if info_referenced_issues i \<noteq> []
                         then AList.update (p_number pr) i m else m"]
      show ?thesis
        unfolding step using \<open>merged\<close> merged by (simp add: add.assoc)
    qed
  qed
qed

lemma long_body_raises:
  "referenced_issues_of (''fixes #'' @ replicate 4301 CHR ''7'') = Inl ValueError"
proof -
  have h1: "lower ''fixes'' = ''fixes''" by code_simp
  have h2: "'' '' \<noteq> []" by simp
  have h3: "\<forall>c\<in>set '' ''. is_space c \<or> c = CHR '':''" by code_simp
  have h4: "replicate 4301 CHR ''7'' \<noteq> []" by simp
  have d7: "is_digit CHR ''7''" by code_simp
  have h5: "\<forall>c\<in>set (replicate 4301 CHR ''7''). is_digit c" using d7 by simp
  have h6: "case [] of [] \<Rightarrow> True | c # _ \<Rightarrow> \<not> is_digit c" by simp
  have len: "4300 < length (replicate 4301 CHR ''7'')" by simp
  from fixes_reference_cases(1)[OF h1 h2 h3 h4 h5 h6 len, of "[]"]
  show ?thesis by simp
qed

lemma example_pr_long_raises: "make_pr_info example_pr_long = Inl ValueError"
proof -
  have "''fixes #'' @ replicate 4301 CHR ''7'' \<noteq> []" by simp
  then show ?thesis
    using long_body_raises
    by (simp add: make_pr_info_def example_pr_long_def example_pr_def)
qed

text \<open>
  Claim C1 at two concrete inputs. With the cap 1 and three merged change-sets of which the
  first has a description whose reference number cannot be converted, the scan counts the
  first, leaves the loop body through the handler without testing the cap, and then counts
  and records the second one: two change-sets are classified as merged, and only the third
  is left unvisited. With the cap 0 and one merged change-set, the scan counts and records
  that change-set.
\<close>

theorem scan_exceeds_cap:
  "scan_prs 1 [example_pr_long, example_pr, example_pr_next] None [] 0
     = Inr ([(10, example_info)], 2, [example_pr_next])
   \<and> scan_prs 0 [example_pr] None [] 0 = Inr ([(10, example_info)], 1, [])"
proof -
  have m1: "p_merged example_pr_long = Inr True" "p_merged example_pr = Inr True"
    by (simp_all add: example_pr_long_def example_pr_def)
  have i: "make_pr_info example_pr = Inr example_info"
    by code_simp
  have r: "info_referenced_issues example_info \<noteq> []"
    by (simp add: example_info_def)
  have n: "p_number example_pr = 10" by (simp add: example_pr_def)
  show ?thesis
    by (simp add: m1 i n r example_pr_long_raises Let_def)
qed

subsection \<open>The nodes of a built issue map\<close>

lemma map_of_link_issue:
  "map_of (link_issue pr_data d j) i
     = (if i = j
        then Some ((case map_of d j of None \<Rightarrow> new_issue_node j | Some node \<Rightarrow> node)
                     \<lparr>node_linked_prs :=
                        node_linked_prs (case map_of d j of None \<Rightarrow> new_issue_node j
                                         | Some node \<Rightarrow> node) @ [pr_stub pr_data]\<rparr>)
        else map_of d i)"
  by (cases "map_of d j") (simp_all add: link_issue_def Let_def map_of_map_entry update_conv')

lemma fresh_link_issue: "fresh_nodes d \<Longrightarrow> fresh_nodes (link_issue pr_data d j)"
  unfolding fresh_nodes_def map_of_link_issue
  by (auto simp: new_issue_node_def split: option.splits)

lemma fresh_links: "fresh_nodes d \<Longrightarrow> fresh_nodes (foldl (link_issue pr_data) d refs)"
  by (induction refs arbitrary: d) (simp_all add: fresh_link_issue)

lemma fresh_invert_from:
  "fresh_nodes d \<Longrightarrow>
     fresh_nodes (foldl (\<lambda>issue_solver_data (pr_number, pr_data).
                           foldl (link_issue pr_data) issue_solver_data
                             (info_referenced_issues pr_data)) d m)"
proof (induction m arbitrary: d)
  case Nil
  then show ?case by simp
next
  case (Cons e m)
  obtain k pr_data where e: "e = (k, pr_data)" by (cases e)
  show ?case using Cons.prems by (simp add: e Cons.IH fresh_links)
qed

lemma fresh_invert: "fresh_nodes (invert m)"
  unfolding invert_def by (rule fresh_invert_from) (simp add: fresh_nodes_def)

lemma set_add_distinct: "distinct xs \<Longrightarrow> distinct (set_add x xs)"
  by (simp add: set_add_def)

lemma set_adds_distinct: "distinct xs \<Longrightarrow> distinct (foldl (\<lambda>s solver. set_add solver s) xs ys)"
  by (induction ys arbitrary: xs) (simp_all add: set_add_distinct)

lemma enrich_pr_fold_node:
  "distinct (node_solvers node) \<Longrightarrow>
     distinct (node_solvers (fst (foldl (enrich_pr repo) (node, acc) prs)))
     \<and> node_issue_number (fst (foldl (enrich_pr repo) (node, acc) prs)) = node_issue_number node"
proof (induction prs arbitrary: node acc)
  case Nil
  then show ?case by simp
next
  case (Cons p prs)
  obtain node1 acc1 where step: "enrich_pr repo (node, acc) p = (node1, acc1)"
    by (cases "enrich_pr repo (node, acc) p")
  from step Cons.prems have d: "distinct (node_solvers node1)"
    and n: "node_issue_number node1 = node_issue_number node"
    by (auto simp: enrich_pr_def Let_def set_adds_distinct)
  from Cons.IH[OF d, of acc1] n show ?case by (simp add: step)
qed

lemma enrich_issue_node:
  assumes "node_solvers node = []"
  shows "distinct (node_solvers (enrich_issue repo k node))"
    and "node_issue_number (enrich_issue repo k node) = node_issue_number node"
proof -
  have s: "node_solvers (update_from_issue repo k node) = []"
    and n: "node_issue_number (update_from_issue repo k node) = node_issue_number node"
    using assms by (simp_all add: update_from_issue_def split: sum.splits)
  from s have d: "distinct (node_solvers (update_from_issue repo k node))" by simp
  from enrich_pr_fold_node[OF d, of repo "[]"] n
  show "distinct (node_solvers (enrich_issue repo k node))"
    and "node_issue_number (enrich_issue repo k node) = node_issue_number node"
    by (simp_all add: enrich_issue_def Let_def)
qed

lemma map_of_enrich:
  assumes "distinct (map fst data)"
  shows "map_of (enrich repo data) i = map_option (enrich_issue repo i) (map_of data i)"
proof (cases "map_of data i")
  case None
  then show ?thesis by (simp add: enrich_def map_of_enrich_from[OF assms])
next
  case (Some node)
  then have "(i, node) \<in> set data" by (rule map_of_SomeD)
  then have "i \<in> set (map fst data)" by force
  with Some show ?thesis by (simp add: enrich_def map_of_enrich_from[OF assms])
qed

lemma built_nodes:
  assumes "(k, node) \<in> set (enrich repo (invert m))"
  shows "node_issue_number node = k" and "distinct (node_solvers node)"
proof -
  have dk: "distinct (map fst (enrich repo (invert m)))"
    by (simp add: enrich_keys invert_distinct)
  with assms have "map_of (enrich repo (invert m)) k = Some node" by simp
  then obtain node0 where n0: "map_of (invert m) k = Some node0"
    and node: "node = enrich_issue repo k node0"
    by (auto simp: map_of_enrich[OF invert_distinct])
  from fresh_invert[of m] n0 have f: "node_issue_number node0 = k" "node_solvers node0 = []"
    by (auto simp: fresh_nodes_def)
  from enrich_issue_node[OF f(2), of repo k] f(1) node
  show "node_issue_number node = k" and "distinct (node_solvers node)" by simp_all
qed

lemma built_numbers_distinct:
  "distinct (map (\<lambda>e. node_issue_number (snd e)) (enrich repo (invert m)))"
proof -
  have "map (\<lambda>e. node_issue_number (snd e)) (enrich repo (invert m))
          = map fst (enrich repo (invert m))"
    using built_nodes(1) by (auto intro!: map_cong)
  then show ?thesis by (simp add: enrich_keys invert_distinct)
qed

lemma build_cases:
  "build_issue_solver_data repo max_prs = Inr data \<Longrightarrow>
     \<exists>m c rest. scan repo max_prs = Inr (m, c, rest) \<and> data = enrich repo (invert m)"
  by (auto simp: build_issue_solver_data_def split: sum.splits)

subsection \<open>Duplicate references\<close>

lemma count_of_key:
  assumes "distinct xs" and "x \<in> set xs"
  shows "count_list xs x = 1"
  using assms by (induction xs) auto

text \<open>
  Claim C8. Let the scan return a mapping with the change-set \<open>n\<close> in it, and let the
  reference list of that change-set hold the issue \<open>i\<close> at least once, \<open>k\<close> times in all.
  After the inversion the issue map has exactly one entry for \<open>i\<close>, and the linked pull
  requests of \<open>i\<close> that belong to change-set \<open>n\<close> are \<open>k\<close> copies of the stub of that
  change-set. The enrichment changes neither: the builder returns a map that has one entry
  for \<open>i\<close> with \<open>k\<close> linked pull requests numbered \<open>n\<close>.
\<close>

theorem duplicate_references_linked:
  assumes "scan repo max_prs = Inr (pr_issue_mapping, processed_count, rest)"
    and "(n, pr_data) \<in> set pr_issue_mapping"
    and "0 < count_list (info_referenced_issues pr_data) i"
  shows "count_list (map fst (invert pr_issue_mapping)) i = 1
       \<and> filter (\<lambda>s. lp_number s = n) (linked_prs_of (invert pr_issue_mapping) i)
         = replicate (count_list (info_referenced_issues pr_data) i) (pr_stub pr_data)
       \<and> (\<exists>issue_solver_data.
            build_issue_solver_data repo max_prs = Inr issue_solver_data
          \<and> count_list (map fst issue_solver_data) i = 1
          \<and> count_list (map lp_number (linked_prs_of issue_solver_data i)) n
              = count_list (info_referenced_issues pr_data) i)"
proof -
  let ?m = pr_issue_mapping
  note inv = scan_invariant[OF assms(1)]
  have "i \<in> set (info_referenced_issues pr_data)"
  proof (rule ccontr)
    assume "i \<notin> set (info_referenced_issues pr_data)"
    then have "count_list (info_referenced_issues pr_data) i = 0" by simp
    with assms(3) show False by simp
  qed
  with assms(2) have "i \<in> fst ` set (invert ?m)"
    unfolding invert_keys by force
  then have key: "i \<in> set (map fst (invert ?m))" by simp
  have a: "count_list (map fst (invert ?m)) i = 1"
    by (rule count_of_key[OF invert_distinct key])
  have b: "filter (\<lambda>s. lp_number s = n) (linked_prs_of (invert ?m) i)
         = replicate (count_list (info_referenced_issues pr_data) i) (pr_stub pr_data)"
    unfolding linked_prs_of_invert by (rule stubs_of_change_set[OF inv assms(2)])
  have built: "build_issue_solver_data repo max_prs = Inr (enrich repo (invert ?m))"
    by (simp add: build_issue_solver_data_def assms(1))
  have c: "count_list (map fst (enrich repo (invert ?m))) i = 1"
    using a by (simp only: enrich_keys)
  have nums: "map lp_number (linked_prs_of (enrich repo (invert ?m)) i)
                = map lp_number (linked_prs_of (invert ?m) i)"
    by (rule linked_prs_of_enrich[OF invert_distinct])
  have cnt: "count_list (map lp_number xs) n = length (filter (\<lambda>s. lp_number s = n) xs)"
    for xs :: "linked_pr list"
    by (induction xs) simp_all
  have d: "count_list (map lp_number (linked_prs_of (enrich repo (invert ?m)) i)) n
         = count_list (info_referenced_issues pr_data) i"
    by (simp only: nums cnt b length_replicate)
  from a b built c d show ?thesis by blast
qed

theorem duplicate_references_linked_witness:
  "\<exists>issue_solver_data.
      build_issue_solver_data example_repo_twice 500 = Inr issue_solver_data
    \<and> count_list (map fst issue_solver_data) 1 = 1
    \<and> count_list (map lp_number (linked_prs_of issue_solver_data 1)) 10 = 2"
proof -
  have i: "make_pr_info example_pr_twice = Inr (example_info\<lparr>info_referenced_issues := [1, 1, 3]\<rparr>)"
    by code_simp
  have m: "p_merged example_pr_twice = Inr True" "p_number example_pr_twice = 10"
    by (simp_all add: example_pr_twice_def example_pr_def)
  have h1: "scan example_repo_twice 500
              = Inr ([(10, example_info\<lparr>info_referenced_issues := [1, 1, 3]\<rparr>)], 1, [])"
    by (simp add: scan_def example_repo_twice_def example_repo_def i m Let_def)
  have h2: "(10, example_info\<lparr>info_referenced_issues := [1, 1, 3]\<rparr>)
              \<in> set [(10, example_info\<lparr>info_referenced_issues := [1, 1, 3]\<rparr>)]"
    by simp
  have h3: "0 < count_list (info_referenced_issues
                              (example_info\<lparr>info_referenced_issues := [1, 1, 3]\<rparr>)) 1"
    by simp
  have c: "count_list (info_referenced_issues
                        (example_info\<lparr>info_referenced_issues := [1, 1, 3]\<rparr>)) 1 = 2"
    by simp
  from duplicate_references_linked [OF h1 h2 h3]
  show ?thesis unfolding c by blast
qed

section \<open>Properties of the row flattener\<close>

lemma foldl_snoc_map: "foldl (\<lambda>acc x. acc @ [f x]) acc xs = acc @ map f xs"
  by (induction xs arbitrary: acc) simp_all

lemma issue_rows_append:
  "issue_rows repo repo_name rows d = rows @ issue_rows repo repo_name [] d"
  by (simp add: issue_rows_def Let_def foldl_snoc_map)

lemma issue_rows_contributors:
  "map row_contributor_id (issue_rows repo repo_name [] d)
     = (if node_solvers d = [] then [''unknown''] else node_solvers d)"
  by (simp add: issue_rows_def Let_def foldl_snoc_map comp_def)

lemma issue_rows_fields:
  assumes "r \<in> set (issue_rows repo repo_name [] d)"
  shows "row_issue_id r = node_issue_number d"
    and "row_issue_body r = det_body (get_issue_details repo (node_issue_number d))"
    and "row_issue_comments r = det_comments (get_issue_details repo (node_issue_number d))"
    and "row_issue_state r = or_empty (node_state d)"
    and "row_issue_created_at r = or_empty (node_created_at d)"
    and "row_issue_closed_at r = or_empty (node_closed_at d)"
    and "row_commit_messages r = lstrip COMMIT_MSG_DELIMITER (node_commit_messages d)"
    and "row_linked_pr_count r = length (node_linked_prs d)"
  using assms by (auto simp: issue_rows_def Let_def foldl_snoc_map)

lemma generate_csv_rows_concat:
  "generate_csv_rows data repo repo_name
     = concat (map (\<lambda>(k, d). issue_rows repo repo_name [] d) data)"
proof -
  have "foldl (\<lambda>rows (k, d). issue_rows repo repo_name rows d) acc data
          = acc @ concat (map (\<lambda>(k, d). issue_rows repo repo_name [] d) data)" for acc
  proof (induction data arbitrary: acc)
    case Nil
    then show ?case by simp
  next
    case (Cons e data)
    obtain k d where e: "e = (k, d)" by (cases e)
    show ?case
      by (simp add: e Cons.IH issue_rows_append[of repo repo_name acc d])
  qed
  then show ?thesis by (simp add: generate_csv_rows_def)
qed

lemma filter_issue_rows:
  "filter (\<lambda>r. row_issue_id r = n) (issue_rows repo repo_name [] d)
     = (if node_issue_number d = n then issue_rows repo repo_name [] d else [])"
proof -
  have "\<forall>r\<in>set (issue_rows repo repo_name [] d). row_issue_id r = node_issue_number d"
    using issue_rows_fields(1) by blast
  then show ?thesis
    by (auto simp: filter_empty_conv intro: filter_True)
qed

lemma filter_other_rows:
  "n \<notin> set (map (\<lambda>e. node_issue_number (snd e)) xs) \<Longrightarrow>
     filter (\<lambda>r. row_issue_id r = n)
       (concat (map (\<lambda>(k, d). issue_rows repo repo_name [] d) xs)) = []"
  by (induction xs) (auto simp: filter_issue_rows)

lemma rows_of_issue:
  assumes "distinct (map (\<lambda>e. node_issue_number (snd e)) data)" and "(k, d) \<in> set data"
  shows "filter (\<lambda>r. row_issue_id r = node_issue_number d) (generate_csv_rows data repo repo_name)
           = issue_rows repo repo_name [] d"
  using assms unfolding generate_csv_rows_concat
proof (induction data)
  case Nil
  then show ?case by simp
next
  case (Cons e data)
  obtain k' d' where e: "e = (k', d')" by (cases e)
  from Cons.prems(1) have notin: "node_issue_number d' \<notin> set (map (\<lambda>e. node_issue_number (snd e)) data)"
    and dist: "distinct (map (\<lambda>e. node_issue_number (snd e)) data)"
    by (simp_all add: e)
  show ?case
  proof (cases "(k, d) = e")
    case True
    then have d: "d' = d" using e by simp
    from filter_other_rows[OF notin] show ?thesis by (simp add: e d filter_issue_rows)
  next
    case False
    with Cons.prems have in_tl: "(k, d) \<in> set data" by simp
    then have "node_issue_number d \<in> set (map (\<lambda>e. node_issue_number (snd e)) data)" by force
    with notin have ne: "node_issue_number d' \<noteq> node_issue_number d" by metis
    from Cons.IH[OF dist in_tl] ne show ?thesis by (simp add: e filter_issue_rows)
  qed
qed

lemma map_const_replicate: "map (\<lambda>x. c) xs = replicate (length xs) c"
  by (induction xs) simp_all

lemma issue_rows_length:
  "length (issue_rows repo repo_name [] d) = max 1 (length (node_solvers d))"
  by (cases "node_solvers d") (simp_all add: issue_rows_def Let_def foldl_snoc_map)

lemma issue_rows_constant:
  assumes "\<forall>r\<in>set (issue_rows repo repo_name [] d). f r = c"
  shows "map f (issue_rows repo repo_name [] d) = replicate (max 1 (length (node_solvers d))) c"
proof -
  have "map f (issue_rows repo repo_name [] d)
          = map (\<lambda>r. c) (issue_rows repo repo_name [] d)"
    using assms by (simp cong: map_cong)
  then show ?thesis by (simp add: map_const_replicate issue_rows_length)
qed

lemma issue_rows_pairs:
  "map (\<lambda>r. (row_issue_id r, row_contributor_id r)) (issue_rows repo repo_name [] d)
     = map (Pair (node_issue_number d))
         (if node_solvers d = [] then [''unknown''] else node_solvers d)"
  by (simp add: issue_rows_def Let_def foldl_snoc_map comp_def)

lemma generate_csv_rows_blocks:
  "map f (generate_csv_rows data repo repo_name)
     = concat (map (\<lambda>e. map f (issue_rows repo repo_name [] (snd e))) data)"
  by (simp add: generate_csv_rows_concat map_concat comp_def case_prod_beta)

text \<open>
  Claim C2. For every issue of an issue map that the builder returns, whatever repository
  the rows are generated against: the rows that carry the number of the issue are as many
  as \<open>max 1\<close> of the number of its contributors, one row per contributor in the order of
  the contributor list, or the single row with the contributor \<open>unknown\<close> when the issue
  has none. For any issue map at all, from the builder or from a cache artifact, the rows
  are the blocks of the issues in order, each block made in this way.
\<close>

theorem rows_per_issue:
  assumes "build_issue_solver_data repo max_prs = Inr issue_solver_data"
    and "(issue_key, issue_data) \<in> set issue_solver_data"
  shows "length (filter (\<lambda>r. row_issue_id r = issue_key)
                   (generate_csv_rows issue_solver_data repo' repo_name))
           = max 1 (card (set (node_solvers issue_data)))
       \<and> map row_contributor_id
             (filter (\<lambda>r. row_issue_id r = issue_key)
                (generate_csv_rows issue_solver_data repo' repo_name))
           = (if node_solvers issue_data = [] then [''unknown''] else node_solvers issue_data)
       \<and> map (\<lambda>r. (row_issue_id r, row_contributor_id r))
             (generate_csv_rows any_map repo' repo_name)
           = concat (map (\<lambda>e. map (Pair (node_issue_number (snd e)))
                                 (if node_solvers (snd e) = [] then [''unknown'']
                                  else node_solvers (snd e))) any_map)"
proof -
  from build_cases[OF assms(1)] obtain m where data: "issue_solver_data = enrich repo (invert m)"
    by blast
  from assms(2) have mem: "(issue_key, issue_data) \<in> set (enrich repo (invert m))"
    by (simp add: data)
  note node = built_nodes[OF mem]
  have dist: "distinct (map (\<lambda>e. node_issue_number (snd e)) issue_solver_data)"
    unfolding data by (rule built_numbers_distinct)
  have rows: "filter (\<lambda>r. row_issue_id r = issue_key)
                (generate_csv_rows issue_solver_data repo' repo_name)
              = issue_rows repo' repo_name [] issue_data"
    using rows_of_issue[OF dist assms(2), of repo' repo_name] by (simp add: node(1))
  have c: "map row_contributor_id
             (filter (\<lambda>r. row_issue_id r = issue_key)
                (generate_csv_rows issue_solver_data repo' repo_name))
           = (if node_solvers issue_data = [] then [''unknown''] else node_solvers issue_data)"
    by (simp only: rows issue_rows_contributors)
  have l: "length (filter (\<lambda>r. row_issue_id r = issue_key)
                   (generate_csv_rows issue_solver_data repo' repo_name))
           = max 1 (card (set (node_solvers issue_data)))"
    by (simp only: rows issue_rows_length distinct_card[OF node(2)])
  have b: "map (\<lambda>r. (row_issue_id r, row_contributor_id r))
             (generate_csv_rows any_map repo' repo_name)
           = concat (map (\<lambda>e. map (Pair (node_issue_number (snd e)))
                                 (if node_solvers (snd e) = [] then [''unknown'']
                                  else node_solvers (snd e))) any_map)"
    by (simp only: generate_csv_rows_blocks issue_rows_pairs)
  from l c b show ?thesis by blast
qed

theorem rows_per_issue_witness:
  "length (filter (\<lambda>r. row_issue_id r = 1)
             (generate_csv_rows example_built example_repo_later ''o/r'')) = 1
   \<and> map row_contributor_id
        (filter (\<lambda>r. row_issue_id r = 1)
           (generate_csv_rows example_built example_repo_later ''o/r'')) = [''alice'']"
proof -
  have h1: "build_issue_solver_data example_repo 500 = Inr example_built"
    by code_simp
  have h2: "(1, snd (hd example_built)) \<in> set example_built"
    by (simp add: example_built_def)
  have s: "node_solvers (snd (hd example_built)) = [''alice'']"
    by (simp add: example_built_def)
  from rows_per_issue [OF h1 h2, of example_repo_later "''o/r''" "[] :: (int \<times> issue_node) list"]
  have "length (filter (\<lambda>r. row_issue_id r = 1)
                   (generate_csv_rows example_built example_repo_later ''o/r''))
           = max 1 (card (set (node_solvers (snd (hd example_built)))))
       \<and> map row_contributor_id
             (filter (\<lambda>r. row_issue_id r = 1)
                (generate_csv_rows example_built example_repo_later ''o/r''))
           = (if node_solvers (snd (hd example_built)) = [] then [''unknown'']
              else node_solvers (snd (hd example_built)))"
    by blast
  then show ?thesis by (simp add: s)
qed

text \<open>
  Claim C5, as the code has it. Of the fields named by the claim, only the body and the
  joined comments of a row come from the fetch made while flattening
  (\<open>get_issue_details\<close> on the repository handed to the flattener; when that fetch
  succeeds they are the body of the remote issue, or the empty string for an issue without
  body, and its comments joined by " || "). State, creation time and closing time are read
  from the issue node handed to the flattener, with the empty string for a node that lacks
  them. This holds block by block for every issue of the map.
\<close>

theorem row_detail_sources:
  "map (\<lambda>r. (row_issue_body r, row_issue_comments r))
     (generate_csv_rows issue_solver_data repo repo_name)
     = concat (map (\<lambda>e. replicate (max 1 (length (node_solvers (snd e))))
                           (det_body (get_issue_details repo (node_issue_number (snd e))),
                            det_comments (get_issue_details repo (node_issue_number (snd e)))))
                 issue_solver_data)
   \<and> map (\<lambda>r. (row_issue_state r, row_issue_created_at r, row_issue_closed_at r))
       (generate_csv_rows issue_solver_data repo repo_name)
     = concat (map (\<lambda>e. replicate (max 1 (length (node_solvers (snd e))))
                           (or_empty (node_state (snd e)), or_empty (node_created_at (snd e)),
                            or_empty (node_closed_at (snd e))))
                 issue_solver_data)
   \<and> (get_issue repo issue_number = Inr issue \<and> issue_get_comments issue = Inr comments \<longrightarrow>
        det_body (get_issue_details repo issue_number) = or_empty (issue_body issue)
      \<and> det_comments (get_issue_details repo issue_number) = join '' || '' comments)"
proof -
  have a: "map (\<lambda>r. (row_issue_body r, row_issue_comments r)) (issue_rows repo repo_name [] d)
             = replicate (max 1 (length (node_solvers d)))
                 (det_body (get_issue_details repo (node_issue_number d)),
                  det_comments (get_issue_details repo (node_issue_number d)))" for d
  proof (rule issue_rows_constant)
    show "\<forall>r\<in>set (issue_rows repo repo_name [] d).
            (row_issue_body r, row_issue_comments r)
              = (det_body (get_issue_details repo (node_issue_number d)),
                 det_comments (get_issue_details repo (node_issue_number d)))"
      using issue_rows_fields(2,3) by blast
  qed
  have b: "map (\<lambda>r. (row_issue_state r, row_issue_created_at r, row_issue_closed_at r))
             (issue_rows repo repo_name [] d)
             = replicate (max 1 (length (node_solvers d)))
                 (or_empty (node_state d), or_empty (node_created_at d),
                  or_empty (node_closed_at d))" for d
  proof (rule issue_rows_constant)
    show "\<forall>r\<in>set (issue_rows repo repo_name [] d).
            (row_issue_state r, row_issue_created_at r, row_issue_closed_at r)
              = (or_empty (node_state d), or_empty (node_created_at d),
                 or_empty (node_closed_at d))"
      using issue_rows_fields(4,5,6) by blast
  qed
  have c: "get_issue repo issue_number = Inr issue \<and> issue_get_comments issue = Inr comments \<longrightarrow>
        det_body (get_issue_details repo issue_number) = or_empty (issue_body issue)
      \<and> det_comments (get_issue_details repo issue_number) = join '' || '' comments"
    by (simp add: get_issue_details_def get_issue_details_try_def COMMENT_DELIMITER_def)
  have a': "map (\<lambda>r. (row_issue_body r, row_issue_comments r))
     (generate_csv_rows issue_solver_data repo repo_name)
     = concat (map (\<lambda>e. replicate (max 1 (length (node_solvers (snd e))))
                           (det_body (get_issue_details repo (node_issue_number (snd e))),
                            det_comments (get_issue_details repo (node_issue_number (snd e)))))
                 issue_solver_data)"
    by (simp only: generate_csv_rows_blocks a)
  have b': "map (\<lambda>r. (row_issue_state r, row_issue_created_at r, row_issue_closed_at r))
       (generate_csv_rows issue_solver_data repo repo_name)
     = concat (map (\<lambda>e. replicate (max 1 (length (node_solvers (snd e))))
                           (or_empty (node_state (snd e)), or_empty (node_created_at (snd e)),
                            or_empty (node_closed_at (snd e))))
                 issue_solver_data)"
    by (simp only: generate_csv_rows_blocks b)
  from a' b' c show ?thesis by blast
qed

theorem row_detail_sources_witness:
  "map (\<lambda>r. (row_issue_body r, row_issue_comments r))
     (generate_csv_rows example_built example_repo_later ''o/r'')
     = [(''It crashes.'', ''Confirmed.'')]
   \<and> map (\<lambda>r. (row_issue_state r, row_issue_created_at r, row_issue_closed_at r))
       (generate_csv_rows example_built example_repo_later ''o/r'')
     = [(''open'', ''2024-01-01T09:00:00'', [])]"
proof -
  have g: "get_issue example_repo_later 1
             = Inr (example_issue\<lparr>issue_state := ''closed'',
                                   issue_closed_at := Some ''2024-01-02T10:00:00''\<rparr>)"
    by (simp add: example_repo_later_def)
  have k: "issue_get_comments (example_issue\<lparr>issue_state := ''closed'',
                                   issue_closed_at := Some ''2024-01-02T10:00:00''\<rparr>)
             = Inr [''Confirmed.'']"
    by (simp add: example_issue_def)
  note t = row_detail_sources [of example_built example_repo_later "''o/r''" 1
         "example_issue\<lparr>issue_state := ''closed'',
                         issue_closed_at := Some ''2024-01-02T10:00:00''\<rparr>" "[''Confirmed.'']"]
  from t have f: "map (\<lambda>r. (row_issue_body r, row_issue_comments r))
     (generate_csv_rows example_built example_repo_later ''o/r'')
     = concat (map (\<lambda>e. replicate (max 1 (length (node_solvers (snd e))))
                           (det_body (get_issue_details example_repo_later (node_issue_number (snd e))),
                            det_comments (get_issue_details example_repo_later (node_issue_number (snd e)))))
                 example_built)"
    by blast
  from t have s: "map (\<lambda>r. (row_issue_state r, row_issue_created_at r, row_issue_closed_at r))
       (generate_csv_rows example_built example_repo_later ''o/r'')
     = concat (map (\<lambda>e. replicate (max 1 (length (node_solvers (snd e))))
                           (or_empty (node_state (snd e)), or_empty (node_created_at (snd e)),
                            or_empty (node_closed_at (snd e))))
                 example_built)"
    by blast
  from t g k have d0: "det_body (get_issue_details example_repo_later 1)
             = or_empty (issue_body (example_issue\<lparr>issue_state := ''closed'',
                                   issue_closed_at := Some ''2024-01-02T10:00:00''\<rparr>))
         \<and> det_comments (get_issue_details example_repo_later 1) = join '' || '' [''Confirmed.'']"
    by blast
  have d: "det_body (get_issue_details example_repo_later 1) = ''It crashes.''"
       "det_comments (get_issue_details example_repo_later 1) = ''Confirmed.''"
    using d0 by (simp_all add: example_issue_def or_empty_def)
  have e: "map (\<lambda>e. replicate (max 1 (length (node_solvers (snd e))))
                           (det_body (get_issue_details example_repo_later (node_issue_number (snd e))),
                            det_comments (get_issue_details example_repo_later (node_issue_number (snd e)))))
                 example_built
           = [[(''It crashes.'', ''Confirmed.'')]]"
    by (simp add: example_built_def d)
  have t: "map (\<lambda>e. replicate (max 1 (length (node_solvers (snd e))))
                           (or_empty (node_state (snd e)), or_empty (node_created_at (snd e)),
                            or_empty (node_closed_at (snd e))))
                 example_built
           = [[(''open'', ''2024-01-01T09:00:00'', [])]]"
    by (simp add: example_built_def or_empty_def)
  show ?thesis unfolding f s e t by simp
qed

text \<open>
  Claim C5 as stated fails: the issue map built while issue 1 was open, flattened when the
  remote issue is closed, gives a row with the state and the closing time of the node, not
  those of the fetch made while flattening.
\<close>

theorem row_state_not_refetched:
  "build_issue_solver_data example_repo 500 = Inr example_built
   \<and> map row_issue_state (generate_csv_rows example_built example_repo_later ''o/r'') = [''open'']
   \<and> det_state (get_issue_details example_repo_later 1) = ''closed''
   \<and> map row_issue_closed_at (generate_csv_rows example_built example_repo_later ''o/r'') = [[]]
   \<and> det_closed_at (get_issue_details example_repo_later 1) = ''2024-01-02T10:00:00''"
  by code_simp

text \<open>
  Claim C6 at a concrete input: one linked pull request whose only commit message is
  "|| operator used". The builder accumulates " || || operator used" for the issue; the
  flattener's \<open>lstrip\<close> removes every leading blank and bar, so the row loses the first
  three characters of the commit message as well.
\<close>

theorem commit_messages_lstrip_removes_content:
  "build_issue_solver_data example_repo 500 = Inr example_built
   \<and> fetch_commit_messages example_repo 10 = ''|| operator used''
   \<and> map (\<lambda>e. node_commit_messages (snd e)) example_built = ['' || || operator used'']
   \<and> map row_commit_messages (generate_csv_rows example_built example_repo ''o/r'')
     = [''operator used'']"
  by code_simp

section \<open>Properties of the cache artifact\<close>

text \<open>
  Claim C7 at a concrete input: the issue map built for the example repository, with the
  single issue 1. The builder returns it with the integer key 1. Written as an artifact and
  read back, the map has the string key "1" instead; the node under the key is the same,
  field by field. The value read back is therefore not the value written.
\<close>

theorem cache_keys_become_strings:
  "build_issue_solver_data example_repo 500 = Inr example_built
   \<and> py_of_issue_map example_built = PDict [(IntKey 1, py_of_node (snd (hd example_built)))]
   \<and> write_then_read example_built
       = Inr (PDict [(StrKey ''1'', py_of_node (snd (hd example_built)))])
   \<and> write_then_read example_built \<noteq> Inr (py_of_issue_map example_built)"
  by code_simp

end
